theory Spec2Isabelle
  imports Main "HOL-Library.Word"
begin

section \<open>Data model of the responder (iiod-responder.h, iiod-responder.c)\<close>

text \<open>
  Conventions of the embedding.
  \<^item> \<open>size_t\<close> values are natural numbers; where the C arithmetic can wrap
    (\<open>bytes - count\<close>, \<open>nb--\<close>, the conversion of a signed value to
    \<open>size_t\<close>) the reduction modulo \<open>2 ^ 64\<close> is written out (LP64 host).
  \<^item> \<open>ssize_t\<close> values are integers; descriptor sizes and transport results are
    taken to be below \<open>2 ^ 63\<close>, so that the signed sums of the C code do not overflow.
  \<^item> The fixed-width fields of the frame header are machine words.
  \<^item> A pointer to a \<open>struct iiod_reader\<close> is an address into an explicit store,
    \<open>NULL\<close> is \<open>None\<close>.
  \<^item> Mutexes and condition variables do not appear: every function below is one
    critical section or one thread-local computation, and blocking on a condition
    variable is the result \<open>None\<close> of the waiting function.
\<close>

type_synonym byte = "8 word"
type_synonym addr = nat
type_synonym memory = "addr \<Rightarrow> byte"
type_synonym hptr = nat

record iiod_command =
  client_id :: "16 word"
  op :: "8 word"
  dev :: "8 word"
  code :: "32 word"

record iiod_buf =
  ptr :: addr
  size :: nat

text \<open>
  \<open>struct iiod_responder_ops\<close>: the four callbacks of the transport, over a transport
  state \<open>'d\<close> (the opaque pointer \<open>d\<close>). \<open>read\<close> and \<open>write\<close> get the descriptors
  \<open>buf[0..nb-1]\<close> as a list; \<open>read\<close> may change the memory the descriptors point
  to. The \<open>cmd\<close> callback may act on the whole state \<open>'w\<close> of the responder.
\<close>

record ('d, 'w) iiod_responder_ops =
  cmd :: "iiod_command \<Rightarrow> 'w \<Rightarrow> int \<times> 'w"
  read :: "'d \<Rightarrow> memory \<Rightarrow> iiod_buf list \<Rightarrow> int \<times> 'd \<times> memory"
  "write" :: "'d \<Rightarrow> memory \<Rightarrow> iiod_buf list \<Rightarrow> int \<times> 'd"
  discard :: "'d \<Rightarrow> nat \<Rightarrow> int \<times> 'd"

record iiod_client_data =
  cmd :: iiod_command
  buf :: "iiod_buf list option"
  nb_buf :: nat
  cleanup_cb :: "nat option"
  cleanup_cb_d :: nat

record iiod_reader =
  r_next :: "hptr option"
  w_next :: "hptr option"
  client_id :: "16 word"
  r_done :: bool
  w_done :: bool
  w_io :: iiod_client_data
  r_io :: iiod_client_data

text \<open>The resources \<open>iiod_responder_create\<close> acquires, in the order it acquires them.\<close>

datatype resource = RPriv | RLock | RRlock | RWlock | RWcond | RReadThrd | RWriteThrd

datatype thrd_ptr = ThrdNull | ThrdErr | Thrd resource

record iiod_responder =
  readers :: "hptr option"
  next_client_id :: "16 word"
  lock :: "resource option"
  rlock :: "resource option"
  wlock :: "resource option"
  read_thrd :: thrd_ptr
  write_thrd :: thrd_ptr
  writers :: "hptr option"
  wcond :: "resource option"
  thrd_stop :: bool

definition EINVAL :: int where
  "EINVAL = 22"

definition IIOD_OP_RESPONSE :: "8 word" where
  "IIOD_OP_RESPONSE = 0"

text \<open>What \<open>zalloc\<close> returns: every field zero.\<close>

definition zero_command :: iiod_command where
  "zero_command = \<lparr>iiod_command.client_id = 0, op = 0, dev = 0, code = 0\<rparr>"

definition zero_client_data :: iiod_client_data where
  "zero_client_data =
     \<lparr>cmd = zero_command, buf = None, nb_buf = 0, cleanup_cb = None, cleanup_cb_d = 0\<rparr>"

definition zero_reader :: iiod_reader where
  "zero_reader =
     \<lparr>r_next = None, w_next = None, client_id = 0, r_done = False, w_done = False,
      w_io = zero_client_data, r_io = zero_client_data\<rparr>"

definition zero_responder :: iiod_responder where
  "zero_responder =
     \<lparr>readers = None, next_client_id = 0, lock = None, rlock = None, wlock = None,
      read_thrd = ThrdNull, write_thrd = ThrdNull, writers = None, wcond = None,
      thrd_stop = False\<rparr>"

section \<open>Lifecycle: \<open>iiod_responder_create\<close>\<close>

text \<open>
  The allocator and the lock library are external. Their outcome is the parameter
  \<open>ok\<close>: \<open>ok r\<close> says that the call creating resource \<open>r\<close> succeeds. Every call
  that creates or releases a resource is recorded, in program order.
\<close>

datatype sys_event = Create resource | Destroy resource

definition IS_ERR :: "thrd_ptr \<Rightarrow> bool" where
  "IS_ERR t = (t = ThrdErr)"

definition iio_mutex_create :: "(resource \<Rightarrow> bool) \<Rightarrow> resource \<Rightarrow> resource option" where
  "iio_mutex_create ok r = (if ok r then Some r else None)"

definition iio_cond_create :: "(resource \<Rightarrow> bool) \<Rightarrow> resource \<Rightarrow> resource option" where
  "iio_cond_create ok r = (if ok r then Some r else None)"

definition iio_thrd_create :: "(resource \<Rightarrow> bool) \<Rightarrow> resource \<Rightarrow> thrd_ptr" where
  "iio_thrd_create ok r = (if ok r then Thrd r else ThrdErr)"

text \<open>\<open>iiod_responder_wait_done\<close>: joins each thread whose pointer is not \<open>NULL\<close>.\<close>

definition iiod_responder_wait_done ::
  "iiod_responder \<Rightarrow> iiod_responder \<times> sys_event list" where
  "iiod_responder_wait_done p =
     (let (p1, t1) = (if read_thrd p \<noteq> ThrdNull
                      then (p\<lparr>read_thrd := ThrdNull\<rparr>, [Destroy RReadThrd])
                      else (p, []));
          (p2, t2) = (if write_thrd p1 \<noteq> ThrdNull
                      then (p1\<lparr>thrd_stop := True, write_thrd := ThrdNull\<rparr>,
                            [Destroy RWriteThrd])
                      else (p1, []))
      in (p2, t1 @ t2))"

text \<open>The labels of the rollback chain, each falling through to the next.\<close>

definition err_free_priv :: "sys_event list" where
  "err_free_priv = [Destroy RPriv]"

definition err_free_lock :: "sys_event list" where
  "err_free_lock = Destroy RLock # err_free_priv"

definition err_free_rlock :: "sys_event list" where
  "err_free_rlock = Destroy RRlock # err_free_lock"

definition err_free_wlock :: "sys_event list" where
  "err_free_wlock = Destroy RWlock # err_free_rlock"

definition err_free_wcond :: "sys_event list" where
  "err_free_wcond = Destroy RWcond # err_free_wlock"

definition err_free_read_thrd :: "iiod_responder \<Rightarrow> sys_event list" where
  "err_free_read_thrd p =
     snd (iiod_responder_wait_done (p\<lparr>thrd_stop := True\<rparr>)) @ err_free_wcond"

definition iiod_responder_create ::
  "(resource \<Rightarrow> bool) \<Rightarrow> iiod_responder option \<times> sys_event list" where
  "iiod_responder_create ok =
     (if \<not> ok RPriv then (None, [])
      else let p0 = zero_responder;
               t0 = [Create RPriv];
               p1 = p0\<lparr>lock := iio_mutex_create ok RLock\<rparr>
      in if lock p1 = None then (None, t0 @ err_free_priv)
      else let t1 = t0 @ [Create RLock];
               p2 = p1\<lparr>rlock := iio_mutex_create ok RRlock\<rparr>
      in if rlock p2 = None then (None, t1 @ err_free_lock)
      else let t2 = t1 @ [Create RRlock];
               p3 = p2\<lparr>wlock := iio_mutex_create ok RWlock\<rparr>
      in if wlock p3 = None then (None, t2 @ err_free_rlock)
      else let t3 = t2 @ [Create RWlock];
               p4 = p3\<lparr>wcond := iio_cond_create ok RWcond\<rparr>
      in if wcond p4 = None then (None, t3 @ err_free_wlock)
      else let t4 = t3 @ [Create RWcond];
               p5 = p4\<lparr>read_thrd := iio_thrd_create ok RReadThrd\<rparr>
      in if IS_ERR (read_thrd p5) then (None, t4 @ err_free_wcond)
      else let t5 = t4 @ [Create RReadThrd];
               p6 = p5\<lparr>write_thrd := iio_thrd_create ok RWriteThrd\<rparr>;
               t6 = (if IS_ERR (write_thrd p6) then t5 else t5 @ [Create RWriteThrd])
      in if IS_ERR (read_thrd p6) then (None, t6 @ err_free_read_thrd p6)
      else (Some p6, t6))"

section \<open>Client identifiers\<close>

text \<open>\<open>id = priv->next_client_id++\<close> on a \<open>uint16_t\<close>.\<close>

definition iiod_responder_get_new_id :: "iiod_responder \<Rightarrow> 16 word \<times> iiod_responder" where
  "iiod_responder_get_new_id p =
     (next_client_id p, p\<lparr>next_client_id := next_client_id p + 1\<rparr>)"

text \<open>
  \<open>iiod_responder_create_reader_from_id\<close>: \<open>alloc\<close> is what \<open>zalloc\<close> returns
  (\<open>None\<close> for \<open>NULL\<close>), \<open>cond_ok\<close> whether \<open>iio_cond_create\<close> succeeds. On
  failure the store is as before (the block is freed again).
\<close>

definition iiod_responder_create_reader_from_id ::
  "(hptr \<Rightarrow> iiod_reader) \<Rightarrow> hptr option \<Rightarrow> bool \<Rightarrow> 16 word
     \<Rightarrow> hptr option \<times> (hptr \<Rightarrow> iiod_reader)" where
  "iiod_responder_create_reader_from_id hp alloc cond_ok ident =
     (case alloc of
        None \<Rightarrow> (None, hp)
      | Some a \<Rightarrow>
          if \<not> cond_ok then (None, hp)
          else (Some a, hp(a := zero_reader\<lparr>client_id := ident\<rparr>)))"

definition iiod_responder_create_reader ::
  "iiod_responder \<Rightarrow> (hptr \<Rightarrow> iiod_reader) \<Rightarrow> hptr option \<Rightarrow> bool
     \<Rightarrow> hptr option \<times> iiod_responder \<times> (hptr \<Rightarrow> iiod_reader)" where
  "iiod_responder_create_reader p hp alloc cond_ok =
     (let (ident, p') = iiod_responder_get_new_id p;
          (r, hp') = iiod_responder_create_reader_from_id hp alloc cond_ok ident
      in (r, p', hp'))"

text \<open>
  Successive calls of \<open>iiod_responder_create_reader\<close> on one responder, one per
  allocator outcome in the list; the result lists, per call, the \<open>client_id\<close> found
  in the handle just created (\<open>None\<close> where the call returned \<open>NULL\<close>).
\<close>

fun create_reader_ids ::
  "iiod_responder \<Rightarrow> (hptr \<Rightarrow> iiod_reader) \<Rightarrow> (hptr option \<times> bool) list
     \<Rightarrow> 16 word option list" where
  "create_reader_ids p hp [] = []"
| "create_reader_ids p hp ((alloc, cond_ok) # es) =
     (let (r, p', hp') = iiod_responder_create_reader p hp alloc cond_ok
      in map_option (\<lambda>a. client_id (hp' a)) r # create_reader_ids p' hp' es)"

section \<open>Memory, descriptors and the transport operations\<close>

unbundle bit_operations_syntax

text \<open>The conversion of a signed value to \<open>size_t\<close>, and \<open>size_t\<close> subtraction.\<close>

definition wrap64 :: "int \<Rightarrow> nat" where
  "wrap64 x = nat (x mod 2 ^ 64)"

definition total_size :: "iiod_buf list \<Rightarrow> nat" where
  "total_size bufs = sum_list (map size bufs)"

text \<open>The addresses a descriptor list covers, in transfer order.\<close>

definition addrs :: "iiod_buf list \<Rightarrow> addr list" where
  "addrs bufs = concat (map (\<lambda>b. [ptr b ..< ptr b + size b]) bufs)"

definition write_seq :: "memory \<Rightarrow> addr list \<Rightarrow> byte list \<Rightarrow> memory" where
  "write_seq m as bs = fold (\<lambda>(a, b) m'. m'(a := b)) (zip as bs) m"

definition scatter :: "memory \<Rightarrow> iiod_buf list \<Rightarrow> byte list \<Rightarrow> memory" where
  "scatter m bufs bs = write_seq m (addrs bufs) bs"

definition gather :: "memory \<Rightarrow> iiod_buf list \<Rightarrow> byte list" where
  "gather m bufs = map m (addrs bufs)"

text \<open>
  The frame header \<open>struct iiod_command\<close> in memory: 8 bytes, no padding, fields in
  declaration order, little-endian host.
\<close>

definition cmd_bytes :: "iiod_command \<Rightarrow> byte list" where
  "cmd_bytes c =
     [ucast (iiod_command.client_id c), ucast (drop_bit 8 (iiod_command.client_id c)),
      op c, dev c,
      ucast (code c), ucast (drop_bit 8 (code c)), ucast (drop_bit 16 (code c)),
      ucast (drop_bit 24 (code c))]"

definition store_cmd :: "memory \<Rightarrow> addr \<Rightarrow> iiod_command \<Rightarrow> memory" where
  "store_cmd m a c = write_seq m [a ..< a + 8] (cmd_bytes c)"

definition load_cmd :: "memory \<Rightarrow> addr \<Rightarrow> iiod_command" where
  "load_cmd m a =
     \<lparr>iiod_command.client_id = ucast (m a) OR push_bit 8 (ucast (m (a + 1))),
      op = m (a + 2), dev = m (a + 3),
      code = ucast (m (a + 4)) OR push_bit 8 (ucast (m (a + 5)))
               OR push_bit 16 (ucast (m (a + 6))) OR push_bit 24 (ucast (m (a + 7)))\<rparr>"

section \<open>The frame codec: \<open>iiod_rw_all\<close> and \<open>iiod_discard_data\<close>\<close>

text \<open>
  A result \<open>None\<close> of the functions below means that the C program has no defined
  result: it reads a descriptor outside the array \<open>bufs\<close> or one that was never
  initialised, it dereferences \<open>NULL\<close>, or (for the functions defined with
  \<^theory_text>\<open>partial_function\<close>) it loops forever.
\<close>

text \<open>
  The copy into the local array \<open>bufs\<close>; \<open>nb\<close> is the count after \<open>nb++\<close>. The
  caller's array is \<open>buf\<close> (\<open>None\<close> for \<open>NULL\<close>).
\<close>

definition load_bufs :: "iiod_buf option \<Rightarrow> iiod_buf list option \<Rightarrow> nat \<Rightarrow> iiod_buf list option" where
  "load_bufs cmd_buf arr nb =
     (case cmd_buf of
        Some c \<Rightarrow>
          (case arr of
             Some bs \<Rightarrow> if nb - 1 \<le> length bs then Some (c # take (nb - 1) bs) else None
           | None \<Rightarrow> if nb = 1 then Some [c] else None)
      | None \<Rightarrow>
          (case arr of
             Some bs \<Rightarrow> if nb \<le> length bs then Some (take nb bs) else None
           | None \<Rightarrow> None))"

text \<open>
  The inner loop \<open>while (ret && (size_t) ret >= curr->size)\<close>. The list is the array
  from \<open>curr\<close> on.
\<close>

fun consume ::
  "int \<Rightarrow> iiod_buf list \<Rightarrow> nat \<Rightarrow> int \<Rightarrow> (int \<times> iiod_buf list \<times> nat \<times> int) option" where
  "consume ret [] nb count = (if ret = 0 then Some (ret, [], nb, count) else None)"
| "consume ret (c # cs) nb count =
     (if ret \<noteq> 0 \<and> size c \<le> nat ret
      then consume (ret - int (size c)) cs (wrap64 (int nb - 1)) (count + int (size c))
      else Some (ret, c # cs, nb, count))"

lemma consume_measure:
  "consume ret bufs nb count = Some (ret2, bufs2, nb2, count2) \<Longrightarrow> 0 < ret \<Longrightarrow>
     0 \<le> ret2 \<and> (ret2 \<noteq> 0 \<longrightarrow> bufs2 \<noteq> [] \<and> nat ret2 < size (hd bufs2)) \<and>
     total_size bufs2 - nat ret2 + length bufs2 < total_size bufs + length bufs"
proof (induction ret bufs nb count rule: consume.induct)
  case (1 ret nb count)
  then show ?case by (simp split: if_splits)
next
  case (2 ret c cs nb count)
  show ?case
  proof (cases "ret \<noteq> 0 \<and> size c \<le> nat ret")
    case False
    with 2 show ?thesis by (auto simp: total_size_def)
  next
    case True
    with 2 have c: "consume (ret - int (size c)) cs (wrap64 (int nb - 1)) (count + int (size c))
        = Some (ret2, bufs2, nb2, count2)"
      by simp
    show ?thesis
    proof (cases "ret - int (size c) = 0")
      case True
      with c have "bufs2 = cs \<and> ret2 = 0" by (cases cs) (auto split: if_splits)
      then show ?thesis by (simp add: total_size_def)
    next
      case False
      with True "2.prems" have "0 < ret - int (size c)" by linarith
      from "2.IH" [OF True c this] show ?thesis
        by (simp add: total_size_def)
    qed
  qed
qed

text \<open>
  The loop \<open>while (true)\<close> of \<open>iiod_rw_all\<close>. \<open>bufs\<close> is the array from \<open>curr\<close>
  on, \<open>nb\<close> and \<open>count\<close> are the C variables.
\<close>

function rw_loop ::
  "('d, 'w) iiod_responder_ops \<Rightarrow> bool \<Rightarrow> nat \<Rightarrow> iiod_buf list \<Rightarrow> nat \<Rightarrow> int \<Rightarrow> 'd \<Rightarrow> memory
     \<Rightarrow> (int \<times> 'd \<times> memory) option" where
  "rw_loop ops is_read bytes bufs nb count d m =
     (case bufs of
        [] \<Rightarrow> None
      | cur # rest \<Rightarrow>
          let trunc = (is_read \<and> wrap64 (int bytes - count) \<le> size cur);
              cur1 = (if trunc then cur\<lparr>size := wrap64 (int bytes - count)\<rparr> else cur);
              nb1 = (if trunc then 1 else nb)
          in if length (cur1 # rest) < nb1 then None
             else
               let (ret, d1, m1) =
                     (if is_read then read ops d m (take nb1 (cur1 # rest))
                      else (case write ops d m (take nb1 (cur1 # rest)) of
                              (r, d') \<Rightarrow> (r, d', m)))
               in if ret \<le> 0 then Some (ret, d1, m1)
                  else
                    (case consume ret (cur1 # rest) nb1 count of
                       None \<Rightarrow> None
                     | Some (ret2, bufs2, nb2, count2) \<Rightarrow>
                         if ret2 = 0 \<and> nb2 = 0 then Some (count2, d1, m1)
                         else
                           (case bufs2 of
                              [] \<Rightarrow> None
                            | c2 # rest2 \<Rightarrow>
                                rw_loop ops is_read bytes
                                  (c2\<lparr>ptr := ptr c2 + nat ret2, size := size c2 - nat ret2\<rparr> # rest2)
                                  nb2 (count2 + ret2) d1 m1)))"
  by pat_completeness auto
termination
proof (relation
    "measure (\<lambda>(ops, is_read, bytes, bufs, nb, count, d, m). total_size bufs + length bufs)",
    goal_cases)
  case 1
  show ?case by simp
next
  case (2 ops is_read bytes bufs nb count d m cur rest trunc cur1 nb1 x ret y d1 m1 z ret2 w
      bufs2 v nb2 count2 c2 rest2)
  from 2 have c: "consume ret (cur1 # rest) nb1 count = Some (ret2, c2 # rest2, nb2, count2)"
    by simp
  from 2 have pos: "0 < ret" by simp
  from 2 have le: "size cur1 \<le> size cur" by (simp split: if_splits)
  from consume_measure [OF c pos] le 2(1) show ?case
    by (cases "ret2 = 0"; simp add: total_size_def; linarith?)
qed

declare rw_loop.simps [simp del]

definition iiod_rw_all ::
  "('d, 'w) iiod_responder_ops \<Rightarrow> 'd \<Rightarrow> memory \<Rightarrow> iiod_buf option \<Rightarrow> iiod_buf list option
     \<Rightarrow> nat \<Rightarrow> nat \<Rightarrow> bool \<Rightarrow> (int \<times> 'd \<times> memory) option" where
  "iiod_rw_all ops d m cmd_buf arr nb bytes is_read =
     (let nb1 = (if cmd_buf \<noteq> None then wrap64 (int nb + 1) else nb)
      in if nb1 = 0 \<or> 32 < nb1 then Some (EINVAL, d, m)
         else (case load_bufs cmd_buf arr nb1 of
                 None \<Rightarrow> None
               | Some bufs \<Rightarrow> rw_loop ops is_read bytes bufs nb1 0 d m))"

partial_function (option) iiod_discard_data ::
  "('d, 'w) iiod_responder_ops \<Rightarrow> 'd \<Rightarrow> nat \<Rightarrow> (int \<times> 'd) option" where
  "iiod_discard_data ops d bytes =
     (if bytes = 0 then Some (0, d)
      else (case discard ops d bytes of
              (ret, d') \<Rightarrow>
                if ret < 0 then Some (ret, d')
                else iiod_discard_data ops d' (wrap64 (int bytes - ret))))"

section \<open>The state of a running responder\<close>

text \<open>
  Everything the two threads and the callers share: the responder structure, the store of
  handles, the state of the transport, the memory the descriptors point into, and the
  calls of cleanup callbacks made so far (callback, its opaque argument, the \<open>ret\<close>
  passed), latest last.
\<close>

record 'd world =
  priv :: iiod_responder
  heap :: "hptr \<Rightarrow> iiod_reader"
  transport :: 'd
  mem :: memory
  cb_log :: "(nat \<times> nat \<times> int) list"

text \<open>What one pass through the body of a thread's loop leads to.\<close>

datatype 'a iter = Wait | Break int 'a | Continue int 'a

subsection \<open>The two intrusive lists\<close>

text \<open>\<open>for (reader = priv->readers; reader; reader = reader->r_next)\<close> with its \<open>break\<close>.\<close>

partial_function (option) find_reader ::
  "(hptr \<Rightarrow> iiod_reader) \<Rightarrow> hptr option \<Rightarrow> 16 word \<Rightarrow> hptr option option" where
  "find_reader hp reader ident =
     (case reader of
        None \<Rightarrow> Some None
      | Some r \<Rightarrow>
          if client_id (hp r) = ident then Some (Some r)
          else find_reader hp (r_next (hp r)) ident)"

text \<open>
  \<open>for (tmp = priv->readers; tmp->r_next; tmp = tmp->r_next)\<close> of
  \<open>__iiod_reader_cancel_unlocked\<close>.
\<close>

partial_function (option) reader_unlink ::
  "(hptr \<Rightarrow> iiod_reader) \<Rightarrow> hptr \<Rightarrow> hptr \<Rightarrow> (hptr \<Rightarrow> iiod_reader) option" where
  "reader_unlink hp tmp io =
     (case r_next (hp tmp) of
        None \<Rightarrow> Some hp
      | Some n \<Rightarrow>
          if n = io then Some (hp(tmp := (hp tmp)\<lparr>r_next := r_next (hp io)\<rparr>))
          else reader_unlink hp n io)"

definition iiod_reader_cancel_unlocked ::
  "iiod_responder \<Rightarrow> (hptr \<Rightarrow> iiod_reader) \<Rightarrow> hptr
     \<Rightarrow> (iiod_responder \<times> (hptr \<Rightarrow> iiod_reader)) option" where
  "iiod_reader_cancel_unlocked p hp io =
     (if readers p = Some io then Some (p\<lparr>readers := None\<rparr>, hp)
      else (case readers p of
              None \<Rightarrow> Some (p, hp)
            | Some h \<Rightarrow> map_option (Pair p) (reader_unlink hp h io)))"

partial_function (option) writer_unlink ::
  "(hptr \<Rightarrow> iiod_reader) \<Rightarrow> hptr \<Rightarrow> hptr \<Rightarrow> (hptr \<Rightarrow> iiod_reader) option" where
  "writer_unlink hp tmp io =
     (case w_next (hp tmp) of
        None \<Rightarrow> Some hp
      | Some n \<Rightarrow>
          if n = io then Some (hp(tmp := (hp tmp)\<lparr>w_next := w_next (hp io)\<rparr>))
          else writer_unlink hp n io)"

definition iiod_writer_cancel_unlocked ::
  "iiod_responder \<Rightarrow> (hptr \<Rightarrow> iiod_reader) \<Rightarrow> hptr
     \<Rightarrow> (iiod_responder \<times> (hptr \<Rightarrow> iiod_reader)) option" where
  "iiod_writer_cancel_unlocked p hp io =
     (if writers p = Some io then Some (p\<lparr>writers := None\<rparr>, hp)
      else (case writers p of
              None \<Rightarrow> Some (p, hp)
            | Some h \<Rightarrow> map_option (Pair p) (writer_unlink hp h io)))"

definition iiod_reader_cancel :: "'d world \<Rightarrow> hptr \<Rightarrow> 'd world option" where
  "iiod_reader_cancel w reader =
     (case iiod_reader_cancel_unlocked (priv w) (heap w) reader of
        None \<Rightarrow> None
      | Some (p1, hp1) \<Rightarrow>
          (case iiod_writer_cancel_unlocked p1 hp1 reader of
             None \<Rightarrow> None
           | Some (p2, hp2) \<Rightarrow> Some (w\<lparr>priv := p2, heap := hp2\<rparr>)))"

text \<open>\<open>for (last = priv->writers; last->w_next; ) last = last->w_next;\<close>\<close>

partial_function (option) last_writer :: "(hptr \<Rightarrow> iiod_reader) \<Rightarrow> hptr \<Rightarrow> hptr option" where
  "last_writer hp lastw =
     (case w_next (hp lastw) of None \<Rightarrow> Some lastw | Some n \<Rightarrow> last_writer hp n)"

partial_function (option) last_reader :: "(hptr \<Rightarrow> iiod_reader) \<Rightarrow> hptr \<Rightarrow> hptr option" where
  "last_reader hp tmp =
     (case r_next (hp tmp) of None \<Rightarrow> Some tmp | Some n \<Rightarrow> last_reader hp n)"

text \<open>
  The sequence of handles a list head leads to, as a relation between the store, the head
  and a HOL list; it holds for no list when the chain is cyclic.
\<close>

fun wlist :: "(hptr \<Rightarrow> iiod_reader) \<Rightarrow> hptr option \<Rightarrow> hptr list \<Rightarrow> bool" where
  "wlist hp p [] = (p = None)"
| "wlist hp p (x # xs) = (p = Some x \<and> wlist hp (w_next (hp x)) xs)"

fun rlist :: "(hptr \<Rightarrow> iiod_reader) \<Rightarrow> hptr option \<Rightarrow> hptr list \<Rightarrow> bool" where
  "rlist hp p [] = (p = None)"
| "rlist hp p (x # xs) = (p = Some x \<and> rlist hp (r_next (hp x)) xs)"

subsection \<open>Sending\<close>

definition iiod_enqueue_command ::
  "'d world \<Rightarrow> hptr \<Rightarrow> 8 word \<Rightarrow> 8 word \<Rightarrow> 32 word \<Rightarrow> iiod_buf list option \<Rightarrow> nat
     \<Rightarrow> nat option \<Rightarrow> nat \<Rightarrow> (int \<times> 'd world) option" where
  "iiod_enqueue_command w writer op' dev' code' arr nb cleanup cleanup_d =
     (let wr = heap w writer;
          wr1 = wr\<lparr>w_io := \<lparr>cmd = \<lparr>iiod_command.client_id = client_id wr, op = op',
                                    dev = dev', code = code'\<rparr>,
                             buf = arr, nb_buf = nb, cleanup_cb = cleanup,
                             cleanup_cb_d = cleanup_d\<rparr>,
                    w_next := None, w_done := False\<rparr>;
          hp1 = (heap w)(writer := wr1)
      in (case writers (priv w) of
            None \<Rightarrow> Some (0, w\<lparr>priv := (priv w)\<lparr>writers := Some writer\<rparr>, heap := hp1\<rparr>)
          | Some h \<Rightarrow>
              (case last_writer hp1 h of
                 None \<Rightarrow> None
               | Some lastw \<Rightarrow>
                   Some (0, w\<lparr>heap := hp1(lastw := (hp1 lastw)\<lparr>w_next := Some writer\<rparr>)\<rparr>))))"

definition iiod_reader_send_command_async ::
  "'d world \<Rightarrow> hptr \<Rightarrow> iiod_command \<Rightarrow> iiod_buf list option \<Rightarrow> nat \<Rightarrow> nat option \<Rightarrow> nat
     \<Rightarrow> (int \<times> 'd world) option" where
  "iiod_reader_send_command_async w reader c arr nb cleanup cleanup_d =
     iiod_enqueue_command w reader (op c) (dev c) (code c) arr nb cleanup cleanup_d"

text \<open>The \<open>intptr_t code\<close> is narrowed to the \<open>int32_t\<close> field of the header.\<close>

definition iiod_reader_send_response_async ::
  "'d world \<Rightarrow> hptr \<Rightarrow> int \<Rightarrow> iiod_buf list option \<Rightarrow> nat \<Rightarrow> nat option \<Rightarrow> nat
     \<Rightarrow> (int \<times> 'd world) option" where
  "iiod_reader_send_response_async w reader code' arr nb cleanup cleanup_d =
     iiod_enqueue_command w reader IIOD_OP_RESPONSE 0 (word_of_int code') arr nb cleanup cleanup_d"

text \<open>
  \<open>iiod_reader_wait_for_command_done\<close> returns once \<open>w_done\<close> is set; in a state where
  it is not, the caller stays blocked (\<open>None\<close>).
\<close>

definition iiod_reader_wait_for_command_done :: "'d world \<Rightarrow> hptr \<Rightarrow> 'd world option" where
  "iiod_reader_wait_for_command_done w reader =
     (if w_done (heap w reader)
      then Some (w\<lparr>heap := (heap w)(reader := (heap w reader)\<lparr>w_done := False\<rparr>)\<rparr>)
      else None)"

text \<open>
  \<open>iiod_reader_send_command\<close>. Between the enqueueing and the return of the wait the
  other threads run; \<open>others\<close> is what they do to the state in that time.
\<close>

definition iiod_reader_send_command ::
  "('d world \<Rightarrow> 'd world option) \<Rightarrow> 'd world \<Rightarrow> hptr \<Rightarrow> iiod_command \<Rightarrow> iiod_buf list option
     \<Rightarrow> nat \<Rightarrow> (int \<times> 'd world) option" where
  "iiod_reader_send_command others w reader c arr nb =
     (case iiod_reader_send_command_async w reader c arr nb None 0 of
        None \<Rightarrow> None
      | Some (ret, w1) \<Rightarrow>
          if ret \<noteq> 0 then Some (ret, w1)
          else (case others w1 of
                  None \<Rightarrow> None
                | Some w2 \<Rightarrow>
                    (case iiod_reader_wait_for_command_done w2 reader of
                       None \<Rightarrow> None
                     | Some w3 \<Rightarrow> Some (0, w3))))"

text \<open>The call of a cleanup callback, guarded as in both threads.\<close>

definition call_cleanup :: "iiod_client_data \<Rightarrow> int \<Rightarrow> (nat \<times> nat \<times> int) list" where
  "call_cleanup io ret =
     (if nb_buf io \<noteq> 0 then
        (case cleanup_cb io of None \<Rightarrow> [] | Some f \<Rightarrow> [(f, cleanup_cb_d io, ret)])
      else [])"

text \<open>
  One pass through the \<open>for (;;)\<close> of \<open>iiod_responder_writer_thrd\<close>; \<open>cmd_addr\<close> is
  the address of the thread's local \<open>cmd\<close>.
\<close>

definition iiod_responder_writer_thrd_iter ::
  "('d, 'd world) iiod_responder_ops \<Rightarrow> addr \<Rightarrow> 'd world \<Rightarrow> 'd world iter option" where
  "iiod_responder_writer_thrd_iter ops cmd_addr w =
     (if thrd_stop (priv w) then Some (Break 0 w)
      else (case writers (priv w) of
              None \<Rightarrow> Some Wait
            | Some writer \<Rightarrow>
                let wr = heap w writer;
                    p1 = (priv w)\<lparr>writers := w_next wr\<rparr>;
                    m1 = store_cmd (mem w) cmd_addr (cmd (w_io wr))
                in (case iiod_rw_all ops (transport w) m1 (Some \<lparr>ptr = cmd_addr, size = 8\<rparr>)
                           (buf (w_io wr)) (nb_buf (w_io wr)) 0 False of
                      None \<Rightarrow> None
                    | Some (ret, d1, m2) \<Rightarrow>
                        let wr2 = wr\<lparr>w_io := (w_io wr)\<lparr>cmd := (cmd (w_io wr))\<lparr>code := word_of_int ret\<rparr>\<rparr>,
                                     w_done := True\<rparr>
                        in Some (Continue ret
                             (w\<lparr>priv := p1, heap := (heap w)(writer := wr2), transport := d1,
                                mem := m2,
                                cb_log := cb_log w @ call_cleanup (w_io wr2) ret\<rparr>)))))"

subsection \<open>Receiving\<close>

definition iiod_reader_enqueue_response_request ::
  "'d world \<Rightarrow> hptr \<Rightarrow> iiod_buf list option \<Rightarrow> nat \<Rightarrow> 'd world option" where
  "iiod_reader_enqueue_response_request w reader arr nb =
     (let rd = heap w reader;
          rd1 = rd\<lparr>r_io := (r_io rd)\<lparr>buf := arr, nb_buf := nb, cleanup_cb := None\<rparr>,
                    r_done := False\<rparr>;
          hp1 = (heap w)(reader := rd1)
      in (case readers (priv w) of
            None \<Rightarrow> Some (w\<lparr>priv := (priv w)\<lparr>readers := Some reader\<rparr>, heap := hp1\<rparr>)
          | Some h \<Rightarrow>
              (case last_reader hp1 h of
                 None \<Rightarrow> None
               | Some tmp \<Rightarrow> Some (w\<lparr>heap := hp1(tmp := (hp1 tmp)\<lparr>r_next := Some reader\<rparr>)\<rparr>))))"

definition iiod_reader_get_response_async ::
  "'d world \<Rightarrow> hptr \<Rightarrow> iiod_buf list option \<Rightarrow> nat \<Rightarrow> 'd world option" where
  "iiod_reader_get_response_async w reader arr nb =
     iiod_reader_enqueue_response_request w reader arr nb"

definition wait_for_response :: "'d world \<Rightarrow> hptr \<Rightarrow> 'd world option" where
  "wait_for_response w reader =
     (if r_done (heap w reader)
      then Some (w\<lparr>heap := (heap w)(reader := (heap w reader)\<lparr>r_done := False\<rparr>)\<rparr>)
      else None)"

text \<open>The \<open>int32_t\<close> field is returned as an \<open>intptr_t\<close>.\<close>

definition iiod_reader_wait_for_response :: "'d world \<Rightarrow> hptr \<Rightarrow> (int \<times> 'd world) option" where
  "iiod_reader_wait_for_response w reader =
     (case wait_for_response w reader of
        None \<Rightarrow> None
      | Some w1 \<Rightarrow> Some (sint (code (cmd (r_io (heap w1 reader)))), w1))"

text \<open>
  The part of the reader thread's loop body that follows the lookup when a waiter was
  found: detach it, store the code, read the payload, discard what did not fit, wake the
  waiter. \<open>ret\<close> is the value the variable holds from reading the header.
\<close>

definition deliver_response ::
  "('d, 'd world) iiod_responder_ops \<Rightarrow> 'd world \<Rightarrow> iiod_command \<Rightarrow> int \<Rightarrow> hptr
     \<Rightarrow> 'd world iter option" where
  "deliver_response ops w c ret reader =
     (case iiod_reader_cancel_unlocked (priv w) (heap w) reader of
        None \<Rightarrow> None
      | Some (p1, hp1) \<Rightarrow>
          let rd = hp1 reader;
              rd1 = rd\<lparr>r_io := (r_io rd)\<lparr>cmd := (cmd (r_io rd))\<lparr>code := code c\<rparr>\<rparr>\<rparr>
          in (case (if buf (r_io rd1) \<noteq> None \<and> 0 < sint (code c) then
                      (case iiod_rw_all ops (transport w) (mem w) None (buf (r_io rd1))
                              (nb_buf (r_io rd1)) (wrap64 (sint (code c))) True of
                         None \<Rightarrow> None
                       | Some (ret1, d1, m1) \<Rightarrow>
                           if 0 < ret1 \<and> wrap64 ret1 < wrap64 (sint (code c)) then
                             (case iiod_discard_data ops d1 (wrap64 (sint (code c) - ret1)) of
                                None \<Rightarrow> None
                              | Some (r, d2) \<Rightarrow> Some (ret1, d2, m1))
                           else Some (ret1, d1, m1))
                    else Some (ret, transport w, mem w)) of
                None \<Rightarrow> None
              | Some (ret2, d3, m3) \<Rightarrow>
                  let rd2 = rd1\<lparr>r_done := True\<rparr>
                  in Some (Continue ret2
                       (w\<lparr>priv := p1, heap := hp1(reader := rd2), transport := d3, mem := m3,
                          cb_log := cb_log w @ call_cleanup (r_io rd2) ret2\<rparr>))))"

text \<open>
  One pass through the \<open>while (!priv->thrd_stop)\<close> of \<open>iiod_responder_reader_thrd\<close>,
  entered with the loop condition true.
\<close>

definition iiod_responder_reader_thrd_iter ::
  "('d, 'd world) iiod_responder_ops \<Rightarrow> addr \<Rightarrow> 'd world \<Rightarrow> 'd world iter option" where
  "iiod_responder_reader_thrd_iter ops cmd_addr w =
     (case iiod_rw_all ops (transport w) (mem w) None (Some [\<lparr>ptr = cmd_addr, size = 8\<rparr>])
             1 8 True of
        None \<Rightarrow> None
      | Some (ret, d1, m1) \<Rightarrow>
          let w1 = w\<lparr>transport := d1, mem := m1\<rparr>
          in if ret \<le> 0 then Some (Break ret w1)
             else
               let c = load_cmd m1 cmd_addr
               in if op c \<noteq> IIOD_OP_RESPONSE then
                    (case iiod_responder_ops.cmd ops c w1 of
                       (r, w2) \<Rightarrow> if r < 0 then Some (Break r w2) else Some (Continue r w2))
                  else
                    (case find_reader (heap w1) (readers (priv w1)) (iiod_command.client_id c) of
                       None \<Rightarrow> None
                     | Some None \<Rightarrow>
                         (case iiod_discard_data ops (transport w1) (wrap64 (sint (code c))) of
                            None \<Rightarrow> None
                          | Some (r, d2) \<Rightarrow> Some (Continue ret (w1\<lparr>transport := d2\<rparr>)))
                     | Some (Some reader) \<Rightarrow> deliver_response ops w1 c ret reader))"

text \<open>The thread function: the loop, then \<open>priv->thrd_stop = true\<close>.\<close>

partial_function (option) reader_thrd_loop ::
  "('d, 'd world) iiod_responder_ops \<Rightarrow> addr \<Rightarrow> int \<Rightarrow> 'd world \<Rightarrow> (int \<times> 'd world) option" where
  "reader_thrd_loop ops cmd_addr ret w =
     (if thrd_stop (priv w) then Some (ret, w)
      else (case iiod_responder_reader_thrd_iter ops cmd_addr w of
              None \<Rightarrow> None
            | Some Wait \<Rightarrow> None
            | Some (Break r w1) \<Rightarrow> Some (r, w1)
            | Some (Continue r w1) \<Rightarrow> reader_thrd_loop ops cmd_addr r w1))"

definition iiod_responder_reader_thrd ::
  "('d, 'd world) iiod_responder_ops \<Rightarrow> addr \<Rightarrow> 'd world \<Rightarrow> (int \<times> 'd world) option" where
  "iiod_responder_reader_thrd ops cmd_addr w =
     (case reader_thrd_loop ops cmd_addr 0 w of
        None \<Rightarrow> None
      | Some (ret, w1) \<Rightarrow> Some (ret, w1\<lparr>priv := (priv w1)\<lparr>thrd_stop := True\<rparr>\<rparr>))"

section \<open>A reference transport\<close>

text \<open>
  Modelled from the spec: the transports behind \<open>struct iiod_responder_ops\<close> are not
  part of the sources; this one follows the contract of section 4.1. It holds the bytes
  still to come from the peer (\<open>rx\<close>), the bytes written so far (\<open>tx\<close>) and a script
  that fixes, call by call, how the next operation behaves: \<open>Chunk n\<close> transfers at most
  \<open>n\<close> bytes (a short read or write), \<open>Fail e\<close> returns \<open>-e\<close>. With the script used
  up every call transfers all it can. A read at the end of \<open>rx\<close> returns 0 (the peer has
  closed), a discard there returns \<open>-EPIPE\<close>.
\<close>

datatype tev = Chunk nat | Fail nat

record sim =
  rx :: "byte list"
  tx :: "byte list"
  script :: "tev list"

definition EPIPE :: int where
  "EPIPE = 32"

definition sim_take :: "sim \<Rightarrow> nat \<Rightarrow> (nat + nat) \<times> sim" where
  "sim_take t dflt =
     (case script t of
        [] \<Rightarrow> (Inr dflt, t)
      | Chunk n # s \<Rightarrow> (Inr n, t\<lparr>script := s\<rparr>)
      | Fail e # s \<Rightarrow> (Inl e, t\<lparr>script := s\<rparr>))"

definition sim_read :: "sim \<Rightarrow> memory \<Rightarrow> iiod_buf list \<Rightarrow> int \<times> sim \<times> memory" where
  "sim_read t m bufs =
     (case sim_take t (total_size bufs) of
        (Inl e, t1) \<Rightarrow> (- int e, t1, m)
      | (Inr lim, t1) \<Rightarrow>
          let k = min lim (min (total_size bufs) (length (rx t1)))
          in (int k, t1\<lparr>rx := drop k (rx t1)\<rparr>, scatter m bufs (take k (rx t1))))"

definition sim_write :: "sim \<Rightarrow> memory \<Rightarrow> iiod_buf list \<Rightarrow> int \<times> sim" where
  "sim_write t m bufs =
     (case sim_take t (total_size bufs) of
        (Inl e, t1) \<Rightarrow> (- int e, t1)
      | (Inr lim, t1) \<Rightarrow>
          let k = min lim (total_size bufs)
          in (int k, t1\<lparr>tx := tx t1 @ take k (gather m bufs)\<rparr>))"

definition sim_discard :: "sim \<Rightarrow> nat \<Rightarrow> int \<times> sim" where
  "sim_discard t n =
     (case sim_take t n of
        (Inl e, t1) \<Rightarrow> (- int e, t1)
      | (Inr lim, t1) \<Rightarrow>
          if rx t1 = [] then (- EPIPE, t1)
          else let k = min lim (min n (length (rx t1)))
               in (int k, t1\<lparr>rx := drop k (rx t1)\<rparr>))"

definition sim_ops ::
  "(iiod_command \<Rightarrow> 'w \<Rightarrow> int \<times> 'w) \<Rightarrow> (sim, 'w) iiod_responder_ops" where
  "sim_ops handler =
     \<lparr>iiod_responder_ops.cmd = handler, read = sim_read, write = sim_write,
      discard = sim_discard\<rparr>"

section \<open>Auxiliary notions for the statements\<close>

text \<open>
  The descriptor array after \<open>k\<close> more bytes have been transferred: the descriptors
  that are used up are dropped (as the inner loop of \<open>iiod_rw_all\<close> does) and the
  first remaining one is advanced by what is left of \<open>k\<close>.
\<close>

fun adv :: "nat \<Rightarrow> iiod_buf list \<Rightarrow> iiod_buf list" where
  "adv k [] = []"
| "adv k (c # cs) =
     (if k = 0 then c # cs
      else if size c \<le> k then adv (k - size c) cs
      else c\<lparr>ptr := ptr c + k, size := size c - k\<rparr> # cs)"

text \<open>A script without failures and without empty transfers.\<close>

definition good_script :: "tev list \<Rightarrow> bool" where
  "good_script s = list_all (\<lambda>e. case e of Chunk n \<Rightarrow> 0 < n | Fail e \<Rightarrow> False) s"

text \<open>The number of bytes that crossed the transport between two of its states.\<close>

definition moved :: "sim \<Rightarrow> sim \<Rightarrow> int" where
  "moved t t' = int (length (rx t)) - int (length (rx t')) + (int (length (tx t')) - int (length (tx t)))"

text \<open>
  A transport with a record of its calls: \<open>logged ops\<close> behaves as \<open>ops\<close> and
  appends the value that each read, write or discard returns to a list kept beside the
  state of \<open>ops\<close>.
\<close>

definition logged :: "('d, 'w) iiod_responder_ops \<Rightarrow> ('d \<times> int list, 'w) iiod_responder_ops" where
  "logged ops =
     \<lparr>iiod_responder_ops.cmd = iiod_responder_ops.cmd ops,
      read = (\<lambda>(d, l) m bufs. case read ops d m bufs of (r, d', m') \<Rightarrow> (r, (d', l @ [r]), m')),
      write = (\<lambda>(d, l) m bufs. case write ops d m bufs of (r, d') \<Rightarrow> (r, (d', l @ [r]))),
      discard = (\<lambda>(d, l) n. case discard ops d n of (r, d') \<Rightarrow> (r, (d', l @ [r])))\<rparr>"

subsection \<open>Runs of the writers queue\<close>

text \<open>The payload descriptors of a queued frame: the first \<open>nb\<close> of the caller's array.\<close>

definition payload :: "iiod_buf list option \<Rightarrow> nat \<Rightarrow> iiod_buf list" where
  "payload arr nb = (case arr of None \<Rightarrow> [] | Some bs \<Rightarrow> take nb bs)"

text \<open>The bytes of a frame: the 8 bytes of the header, then the payload.\<close>

definition frame :: "memory \<Rightarrow> iiod_client_data \<Rightarrow> byte list" where
  "frame m io = cmd_bytes (cmd io) @ gather m (payload (buf io) (nb_buf io))"

text \<open>
  A frame the writer thread can send: fewer than 32 payload descriptors, all of them
  present in the caller's array, none overlapping the writer thread's local header at
  \<open>a\<close>.
\<close>

definition sendable :: "addr \<Rightarrow> iiod_buf list option \<Rightarrow> nat \<Rightarrow> bool" where
  "sendable a arr nb =
     (nb < 32 \<and> (case arr of None \<Rightarrow> nb = 0 | Some bs \<Rightarrow> nb \<le> length bs) \<and>
      (\<forall>x\<in>set (addrs (payload arr nb)). x < a \<or> a + 8 \<le> x))"

text \<open>
  The steps that act on the writers queue, each atomic under \<open>wlock\<close> but for the
  transport write, which only the writer thread performs: a caller enqueues a frame
  (\<open>iiod_enqueue_command\<close> without cleanup callback), or the writer thread makes one
  pass of its loop. A run is any interleaving of them.
\<close>

datatype event = Enq hptr "8 word" "8 word" "32 word" "iiod_buf list option" nat | WriterPass

fun run ::
  "('d, 'd world) iiod_responder_ops \<Rightarrow> addr \<Rightarrow> event list \<Rightarrow> 'd world \<Rightarrow> 'd world option" where
  "run ops a [] w = Some w"
| "run ops a (Enq x op' dev' code' arr nb # es) w =
     (case iiod_enqueue_command w x op' dev' code' arr nb None 0 of
        None \<Rightarrow> None
      | Some (r, w1) \<Rightarrow> run ops a es w1)"
| "run ops a (WriterPass # es) w =
     (case iiod_responder_writer_thrd_iter ops a w of
        None \<Rightarrow> None
      | Some Wait \<Rightarrow> run ops a es w
      | Some (Break r w1) \<Rightarrow> run ops a es w1
      | Some (Continue r w1) \<Rightarrow> run ops a es w1)"

text \<open>
  The contract on the callers: no handle is enqueued while it is still in the queue. The
  first argument is the queue before the events.
\<close>

fun single_use :: "hptr list \<Rightarrow> event list \<Rightarrow> bool" where
  "single_use q [] = True"
| "single_use q (Enq x op' dev' code' arr nb # es) = (x \<notin> set q \<and> single_use (q @ [x]) es)"
| "single_use q (WriterPass # es) = single_use (tl q) es"

fun sendable_event :: "addr \<Rightarrow> event \<Rightarrow> bool" where
  "sendable_event a (Enq x op' dev' code' arr nb) = sendable a arr nb"
| "sendable_event a WriterPass = True"

fun event_frame :: "'d world \<Rightarrow> event \<Rightarrow> byte list" where
  "event_frame w (Enq x op' dev' code' arr nb) =
     cmd_bytes \<lparr>iiod_command.client_id = client_id (heap w x), op = op', dev = dev', code = code'\<rparr>
       @ gather (mem w) (payload arr nb)"
| "event_frame w WriterPass = []"

text \<open>The frames of the handles in the queue \<open>xs\<close>, in queue order.\<close>

definition pending :: "'d world \<Rightarrow> hptr list \<Rightarrow> byte list" where
  "pending w xs = concat (map (\<lambda>x. frame (mem w) (w_io (heap w x))) xs)"

text \<open>
  Two states agree when every handle has the same \<open>client_id\<close> in both and the memory
  is the same outside the writer thread's local header.
\<close>

definition agree :: "addr \<Rightarrow> 'd world \<Rightarrow> 'd world \<Rightarrow> bool" where
  "agree a w0 w =
     ((\<forall>y. client_id (heap w y) = client_id (heap w0 y)) \<and>
      (\<forall>z. z < a \<or> a + 8 \<le> z \<longrightarrow> mem w z = mem w0 z))"

section \<open>Concrete scenarios\<close>

text \<open>A command handler that accepts every command and does nothing.\<close>

definition nop_handler :: "iiod_command \<Rightarrow> sim world \<Rightarrow> int \<times> sim world" where
  "nop_handler c w = (0, w)"

text \<open>
  The writer thread gets to run one pass of its loop (the instance of the parameter
  \<open>others\<close> of \<open>iiod_reader_send_command\<close> with a single caller).
\<close>

definition writer_runs_once ::
  "('d, 'd world) iiod_responder_ops \<Rightarrow> addr \<Rightarrow> 'd world \<Rightarrow> 'd world option" where
  "writer_runs_once ops cmd_addr w =
     (case iiod_responder_writer_thrd_iter ops cmd_addr w of
        Some (Continue r w') \<Rightarrow> Some w'
      | _ \<Rightarrow> None)"

text \<open>
  A responder with both lists empty and one handle, at address 1, with \<open>client_id\<close> 42;
  the transport has the script \<open>s\<close> and the inbound bytes \<open>bs\<close>.
\<close>

definition idle_world :: "tev list \<Rightarrow> byte list \<Rightarrow> sim world" where
  "idle_world s bs =
     \<lparr>priv = zero_responder,
      heap = (\<lambda>_. zero_reader)(1 := zero_reader\<lparr>client_id := 42\<rparr>),
      transport = \<lparr>rx = bs, tx = [], script = s\<rparr>, mem = (\<lambda>_. 0), cb_log = []\<rparr>"

text \<open>The same after the handle has asked for a response into the list \<open>arr\<close>, \<open>nb\<close>.\<close>

definition waiting_world ::
  "iiod_buf list option \<Rightarrow> nat \<Rightarrow> tev list \<Rightarrow> byte list \<Rightarrow> sim world" where
  "waiting_world arr nb s bs = the (iiod_reader_get_response_async (idle_world s bs) 1 arr nb)"

text \<open>Two handles, at addresses 1 and 2, queued in this order in both lists.\<close>

definition two_queued :: "sim world" where
  "two_queued =
     \<lparr>priv = zero_responder\<lparr>readers := Some 1, writers := Some 1\<rparr>,
      heap = (\<lambda>_. zero_reader)
               (1 := zero_reader\<lparr>r_next := Some 2, w_next := Some 2, client_id := 1\<rparr>,
                2 := zero_reader\<lparr>client_id := 2\<rparr>),
      transport = \<lparr>rx = [], tx = [], script = []\<rparr>, mem = (\<lambda>_. 0), cb_log = []\<rparr>"

text \<open>The header that 8 bytes from the wire decode to.\<close>

definition cmd_of_bytes :: "byte list \<Rightarrow> iiod_command" where
  "cmd_of_bytes bs = load_cmd (\<lambda>i. bs ! i) 0"

text \<open>
  Two idle handles, at addresses 1 and 2, with the \<open>client_id\<close>s 1 and 2; memory
  byte \<open>a\<close> holds \<open>a + 65\<close>.
\<close>

definition two_idle :: "tev list \<Rightarrow> sim world" where
  "two_idle s =
     \<lparr>priv = zero_responder,
      heap = (\<lambda>_. zero_reader)(1 := zero_reader\<lparr>client_id := 1\<rparr>,
                               2 := zero_reader\<lparr>client_id := 2\<rparr>),
      transport = \<lparr>rx = [], tx = [], script = s\<rparr>, mem = (\<lambda>a. of_nat (a + 65)), cb_log = []\<rparr>"

section \<open>Properties of the lifecycle and of the identifiers\<close>

lemma create_reader_step:
  "iiod_responder_create_reader p hp alloc cond_ok = (r, p', hp') \<Longrightarrow>
     next_client_id p' = next_client_id p + 1 \<and>
     r = (if alloc \<noteq> None \<and> cond_ok then alloc else None) \<and>
     (\<forall>a. r = Some a \<longrightarrow> client_id (hp' a) = next_client_id p)"
  by (auto simp: iiod_responder_create_reader_def iiod_responder_get_new_id_def
      iiod_responder_create_reader_from_id_def split: option.splits if_splits)

lemma create_reader_ids_nth:
  "i < length es \<Longrightarrow>
     create_reader_ids p hp es ! i =
       (if fst (es ! i) \<noteq> None \<and> snd (es ! i)
        then Some (next_client_id p + of_nat i) else None)"
proof (induction es arbitrary: p hp i)
  case Nil
  then show ?case by simp
next
  case (Cons e es)
  obtain alloc cond_ok where e: "e = (alloc, cond_ok)" by (cases e)
  obtain r p' hp' where c: "iiod_responder_create_reader p hp alloc cond_ok = (r, p', hp')"
    by (cases "iiod_responder_create_reader p hp alloc cond_ok")
  note st = create_reader_step [OF c]
  show ?case
  proof (cases i)
    case 0
    with e c st show ?thesis by (auto split: if_splits)
  next
    case (Suc j)
    with Cons.prems have "j < length es" by simp
    from Cons.IH [OF this, of p' hp'] e c st Suc show ?thesis
      by (simp add: add.assoc add.commute)
  qed
qed

text \<open>
  The outcome of creating the writer thread never decides the result of
  \<open>iiod_responder_create\<close>: the second \<open>IS_ERR\<close> test reads \<open>read_thrd\<close> again.
\<close>

lemma iiod_responder_create_NULL_iff:
  "fst (iiod_responder_create ok) = None \<longleftrightarrow>
     \<not> (ok RPriv \<and> ok RLock \<and> ok RRlock \<and> ok RWlock \<and> ok RWcond \<and> ok RReadThrd)"
  by (simp add: iiod_responder_create_def Let_def iio_mutex_create_def iio_cond_create_def
      iio_thrd_create_def IS_ERR_def)

text \<open>
  When an earlier step fails, what was created so far is released in reverse order;
  shown here for the failure of the reader thread, the longest rollback that runs.
\<close>

lemma iiod_responder_create_rollback_read_thrd:
  "iiod_responder_create (\<lambda>r. r \<noteq> RReadThrd) =
     (None, [Create RPriv, Create RLock, Create RRlock, Create RWlock, Create RWcond,
             Destroy RWcond, Destroy RWlock, Destroy RRlock, Destroy RLock, Destroy RPriv])"
  by (simp add: iiod_responder_create_def Let_def iio_mutex_create_def iio_cond_create_def
      iio_thrd_create_def IS_ERR_def err_free_wcond_def err_free_wlock_def err_free_rlock_def
      err_free_lock_def err_free_priv_def)

text \<open>
  Claim C8 (the code departs from it). The claim: \<open>iiod_responder_create\<close> returns a
  responder exactly when every setup step succeeds, and otherwise rolls back and returns
  \<open>NULL\<close>. The code at the input where only the creation of the writer thread fails:
  a responder is returned, its \<open>write_thrd\<close> is the error pointer, and nothing is
  released.
\<close>

theorem iiod_responder_create_writer_thrd_unchecked:
  "iiod_responder_create (\<lambda>r. r \<noteq> RWriteThrd) =
     (Some (zero_responder\<lparr>lock := Some RLock, rlock := Some RRlock, wlock := Some RWlock,
                            wcond := Some RWcond, read_thrd := Thrd RReadThrd,
                            write_thrd := ThrdErr\<rparr>),
      [Create RPriv, Create RLock, Create RRlock, Create RWlock, Create RWcond,
       Create RReadThrd])"
  by (simp add: iiod_responder_create_def Let_def iio_mutex_create_def iio_cond_create_def
      iio_thrd_create_def IS_ERR_def)

text \<open>
  Claim C9. A call of \<open>iiod_responder_create_reader\<close> advances \<open>next_client_id\<close> by
  one modulo \<open>2 ^ 16\<close> and gives the handle it returns the previous value as its
  \<open>client_id\<close>; over successive calls on one responder the \<open>i\<close>-th handle gets the
  starting value plus \<open>i\<close> in 16-bit arithmetic, which is the starting value plus
  \<open>i\<close> as long as that stays below \<open>2 ^ 16\<close>.
\<close>

theorem create_reader_consecutive_ids:
  "(case iiod_responder_create_reader p hp alloc cond_ok of
      (r, p', hp') \<Rightarrow>
        next_client_id p' = next_client_id p + 1 \<and>
        unat (next_client_id p') = (unat (next_client_id p) + 1) mod 2 ^ 16 \<and>
        (\<forall>a. r = Some a \<longrightarrow> client_id (hp' a) = next_client_id p)) \<and>
   (i < length es \<and> fst (es ! i) \<noteq> None \<and> snd (es ! i) \<longrightarrow>
      create_reader_ids p hp es ! i = Some (next_client_id p + of_nat i) \<and>
      unat (next_client_id p + of_nat i) = (unat (next_client_id p) + i) mod 2 ^ 16 \<and>
      (unat (next_client_id p) + i < 2 ^ 16 \<longrightarrow>
         unat (next_client_id p + of_nat i) = unat (next_client_id p) + i))"
proof -
  obtain r p' hp' where c: "iiod_responder_create_reader p hp alloc cond_ok = (r, p', hp')"
    by (cases "iiod_responder_create_reader p hp alloc cond_ok")
  from create_reader_step [OF c]
  have "next_client_id p' = next_client_id p + 1"
    and "\<forall>a. r = Some a \<longrightarrow> client_id (hp' a) = next_client_id p"
    by simp_all
  moreover have "unat (next_client_id p + 1) = (unat (next_client_id p) + 1) mod 2 ^ 16"
    by (simp add: unat_word_ariths)
  moreover have "unat (next_client_id p + of_nat i) = (unat (next_client_id p) + i) mod 2 ^ 16"
    by (simp add: unat_word_ariths unat_of_nat mod_simps)
  ultimately show ?thesis
    using c by (simp add: create_reader_ids_nth)
qed

theorem create_reader_consecutive_ids_witness:
  "next_client_id (fst (snd (iiod_responder_create_reader
       (zero_responder\<lparr>next_client_id := 65535\<rparr>) (\<lambda>_. zero_reader) (Some 7) True))) = 0 \<and>
   client_id (snd (snd (iiod_responder_create_reader
       (zero_responder\<lparr>next_client_id := 65535\<rparr>) (\<lambda>_. zero_reader) (Some 7) True)) 7)
     = 65535 \<and>
   create_reader_ids (zero_responder\<lparr>next_client_id := 65535\<rparr>) (\<lambda>_. zero_reader)
       [(Some 1, True), (Some 2, True)] ! 1 = Some 0"
  using create_reader_consecutive_ids
    [of "zero_responder\<lparr>next_client_id := 65535\<rparr>" "\<lambda>_. zero_reader" "Some 7" True
        1 "[(Some 1, True), (Some 2, True)]"]
  by (simp add: iiod_responder_create_reader_def iiod_responder_get_new_id_def
      iiod_responder_create_reader_from_id_def zero_responder_def)

section \<open>Properties of the frame codec\<close>

lemma adv_0 [simp]: "adv 0 bufs = bufs"
  by (cases bufs) simp_all

lemma wrap64_small [simp]: "0 \<le> x \<Longrightarrow> x < 2 ^ 64 \<Longrightarrow> wrap64 x = nat x"
  by (simp add: wrap64_def)

lemma total_size_simps [simp]:
  "total_size [] = 0" "total_size (c # cs) = size c + total_size cs"
  "total_size (xs @ ys) = total_size xs + total_size ys"
  by (simp_all add: total_size_def)

lemma consume_adv:
  "0 \<le> ret \<Longrightarrow> nat ret \<le> total_size (take nb bufs) \<Longrightarrow> nb \<le> length bufs \<Longrightarrow> nb < 2 ^ 64 \<Longrightarrow>
     \<exists>ret2 bufs2 nb2 count2.
       consume ret bufs nb count = Some (ret2, bufs2, nb2, count2) \<and> 0 \<le> ret2 \<and>
       count2 + ret2 = count + ret \<and> nb2 = length (adv (nat ret) (take nb bufs)) \<and>
       (nb2 = 0 \<longrightarrow> ret2 = 0) \<and>
       (case bufs2 of
          [] \<Rightarrow> adv (nat ret) (take nb bufs) @ drop nb bufs = []
        | c2 # rest2 \<Rightarrow>
            c2\<lparr>ptr := ptr c2 + nat ret2, size := size c2 - nat ret2\<rparr> # rest2 =
              adv (nat ret) (take nb bufs) @ drop nb bufs)"
proof (induction bufs arbitrary: ret nb count)
  case Nil
  then show ?case by simp
next
  case (Cons c cs)
  show ?case
  proof (cases nb)
    case 0
    with Cons.prems show ?thesis by simp
  next
    case (Suc n)
    show ?thesis
    proof (cases "ret \<noteq> 0 \<and> size c \<le> nat ret")
      case False
      with Cons.prems Suc show ?thesis by (cases "ret = 0") auto
    next
      case True
      have w: "wrap64 (int nb - 1) = n" using Suc Cons.prems by simp
      have a: "0 \<le> ret - int (size c)" using True Cons.prems by linarith
      have b: "nat (ret - int (size c)) \<le> total_size (take n cs)"
        using Cons.prems Suc True by simp
      have c: "n \<le> length cs" "n < 2 ^ 64" using Cons.prems Suc by simp_all
      have "nat ret - size c = nat (ret - int (size c))" using True Cons.prems by linarith
      then have d: "adv (nat ret) (take nb (c # cs)) = adv (nat (ret - int (size c))) (take n cs)"
        using True Cons.prems Suc by simp
      have e: "drop nb (c # cs) = drop n cs" using Suc by simp
      have f: "consume ret (c # cs) nb count =
          consume (ret - int (size c)) cs n (count + int (size c))"
        using True w by simp
      from Cons.IH [OF a b c, of "count + int (size c)"] show ?thesis
        unfolding d e f by (auto simp: algebra_simps)
    qed
  qed
qed

lemma adv_total: "k \<le> total_size bufs \<Longrightarrow> total_size (adv k bufs) = total_size bufs - k"
  by (induction bufs arbitrary: k) auto

lemma adv_length: "length (adv k bufs) \<le> length bufs"
  by (induction bufs arbitrary: k) (auto intro: le_SucI)

lemma adv_measure:
  "0 < k \<Longrightarrow> k \<le> total_size bufs \<Longrightarrow>
     total_size (adv k bufs) + length (adv k bufs) < total_size bufs + length bufs"
  using adv_total [of k bufs] adv_length [of k bufs] by linarith

lemma addrs_simps [simp]:
  "addrs [] = []" "addrs (c # cs) = [ptr c ..< ptr c + size c] @ addrs cs"
  "addrs (xs @ ys) = addrs xs @ addrs ys"
  by (simp_all add: addrs_def)

lemma length_addrs [simp]: "length (addrs bufs) = total_size bufs"
  by (induction bufs) simp_all

lemma drop_upt_same: "k \<le> n \<Longrightarrow> drop k [a ..< a + n] = [a + k ..< a + k + (n - k)]"
  by (simp add: drop_upt add.assoc)

lemma addrs_adv: "k \<le> total_size bufs \<Longrightarrow> addrs (adv k bufs) = drop k (addrs bufs)"
proof (induction bufs arbitrary: k)
  case Nil
  then show ?case by simp
next
  case (Cons c cs)
  then show ?case by (auto simp: drop_upt add.assoc)
qed

text \<open>One pass through the loop, for any transport that reports at most what the descriptors hold.\<close>

lemma rw_loop_step:
  assumes ne: "bufs = cur # rest"
    and nb: "1 \<le> nb" "nb \<le> length bufs" "nb < 2 ^ 64"
    and tr: "trunc = (is_read \<and> wrap64 (int bytes - count) \<le> size cur)"
    and c1: "cur1 = (if trunc then cur\<lparr>size := wrap64 (int bytes - count)\<rparr> else cur)"
    and n1: "nb1 = (if trunc then 1 else nb)"
    and act: "act = take nb1 (cur1 # rest)"
    and x: "(if is_read then read ops d m act else (case write ops d m act of (r, d') \<Rightarrow> (r, d', m)))
              = (ret, d1, m1)"
    and le: "ret \<le> int (total_size act)"
  shows "rw_loop ops is_read bytes bufs nb count d m =
     (if ret \<le> 0 then Some (ret, d1, m1)
      else if adv (nat ret) act = [] then Some (count + ret, d1, m1)
      else rw_loop ops is_read bytes (adv (nat ret) act @ drop nb1 (cur1 # rest))
             (length (adv (nat ret) act)) (count + ret) d1 m1)"
proof (cases "ret \<le> 0")
  case True
  with ne nb tr c1 n1 act x show ?thesis
    by (subst rw_loop.simps) (auto simp: Let_def)
next
  case False
  have l1: "nb1 \<le> length (cur1 # rest)" "nb1 < 2 ^ 64" using nb n1 ne by auto
  have "0 \<le> ret" "nat ret \<le> total_size (take nb1 (cur1 # rest))" using False le act by simp_all
  from consume_adv [OF this l1, of count] obtain ret2 bufs2 nb2 count2 where
    c: "consume ret (cur1 # rest) nb1 count = Some (ret2, bufs2, nb2, count2)"
    and r2: "0 \<le> ret2" "count2 + ret2 = count + ret"
    and n2: "nb2 = length (adv (nat ret) act)" "nb2 = 0 \<longrightarrow> ret2 = 0"
    and b2: "(case bufs2 of
          [] \<Rightarrow> adv (nat ret) act @ drop nb1 (cur1 # rest) = []
        | c2 # rest2 \<Rightarrow>
            c2\<lparr>ptr := ptr c2 + nat ret2, size := size c2 - nat ret2\<rparr> # rest2 =
              adv (nat ret) act @ drop nb1 (cur1 # rest))"
    unfolding act by blast
  show ?thesis
  proof (cases "adv (nat ret) act = []")
    case True
    with n2 have "nb2 = 0" "ret2 = 0" by simp_all
    with False True ne nb tr c1 n1 act x c r2 l1 show ?thesis
      by (subst rw_loop.simps) (auto simp: Let_def)
  next
    case nonempty: False
    with n2 have nz: "nb2 \<noteq> 0" by simp
    from nonempty b2 obtain c2 rest2 where bs: "bufs2 = c2 # rest2"
      by (cases bufs2) auto
    with b2 have e: "c2\<lparr>ptr := ptr c2 + nat ret2, size := size c2 - nat ret2\<rparr> # rest2 =
              adv (nat ret) act @ drop nb1 (cur1 # rest)" by simp
    have "rw_loop ops is_read bytes bufs nb count d m =
        rw_loop ops is_read bytes (c2\<lparr>ptr := ptr c2 + nat ret2, size := size c2 - nat ret2\<rparr> # rest2)
          nb2 (count2 + ret2) d1 m1"
      using False ne nb tr c1 n1 act x c l1 nz bs
      by (subst rw_loop.simps) (auto simp: Let_def)
    with e r2 n2 nonempty False show ?thesis by simp
  qed
qed

lemma good_script_simps [simp]:
  "good_script []" "good_script (Chunk n # s) = (0 < n \<and> good_script s)"
  "good_script (Fail e # s) = False"
  by (simp_all add: good_script_def)

lemma length_gather [simp]: "length (gather m bufs) = total_size bufs"
  by (simp add: gather_def)

lemma sim_take_cases:
  "sim_take t dflt = (x, t1) \<Longrightarrow>
     rx t1 = rx t \<and> tx t1 = tx t \<and> set (script t1) \<subseteq> set (script t) \<and>
     (good_script (script t) \<longrightarrow> good_script (script t1)) \<and>
     (case x of
        Inl e \<Rightarrow> Fail e \<in> set (script t)
      | Inr lim \<Rightarrow> good_script (script t) \<and> 0 < dflt \<longrightarrow> 0 < lim)"
  by (auto simp: sim_take_def split: list.splits tev.splits)

lemma sim_write_cases:
  assumes "sim_write t m bufs = (ret, t1)"
  shows "ret \<le> int (total_size bufs) \<and> rx t1 = rx t \<and> set (script t1) \<subseteq> set (script t) \<and>
     (good_script (script t) \<longrightarrow> good_script (script t1)) \<and>
     ((0 \<le> ret \<and> tx t1 = tx t @ take (nat ret) (gather m bufs) \<and>
         (good_script (script t) \<and> 0 < total_size bufs \<longrightarrow> 0 < ret)) \<or>
      (ret \<le> 0 \<and> Fail (nat (- ret)) \<in> set (script t) \<and> tx t1 = tx t))"
proof -
  obtain x t0 where st: "sim_take t (total_size bufs) = (x, t0)"
    by (cases "sim_take t (total_size bufs)")
  note f = sim_take_cases [OF st]
  show ?thesis
  proof (cases x)
    case (Inl e)
    with st assms have "ret = - int e" "t1 = t0" by (simp_all add: sim_write_def)
    with f Inl show ?thesis by simp
  next
    case (Inr lim)
    define k where "k = min lim (total_size bufs)"
    from Inr st assms have r: "ret = int k" "t1 = t0\<lparr>tx := tx t0 @ take k (gather m bufs)\<rparr>"
      by (simp_all add: sim_write_def Let_def k_def)
    have "k \<le> total_size bufs" by (simp add: k_def)
    moreover have "good_script (script t) \<and> 0 < total_size bufs \<longrightarrow> 0 < k"
      using f Inr by (simp add: k_def)
    ultimately show ?thesis using r f by simp
  qed
qed

lemma sim_read_cases:
  assumes "sim_read t m bufs = (ret, t1, m1)"
  shows "ret \<le> int (total_size bufs) \<and> tx t1 = tx t \<and> set (script t1) \<subseteq> set (script t) \<and>
     (good_script (script t) \<longrightarrow> good_script (script t1)) \<and>
     ((0 \<le> ret \<and> nat ret \<le> length (rx t) \<and> rx t1 = drop (nat ret) (rx t) \<and>
         m1 = scatter m bufs (take (nat ret) (rx t)) \<and>
         (good_script (script t) \<and> 0 < total_size bufs \<and> rx t \<noteq> [] \<longrightarrow> 0 < ret)) \<or>
      (ret \<le> 0 \<and> Fail (nat (- ret)) \<in> set (script t) \<and> rx t1 = rx t \<and> m1 = m))"
proof -
  obtain x t0 where st: "sim_take t (total_size bufs) = (x, t0)"
    by (cases "sim_take t (total_size bufs)")
  note f = sim_take_cases [OF st]
  show ?thesis
  proof (cases x)
    case (Inl e)
    with st assms have "ret = - int e" "t1 = t0" "m1 = m" by (simp_all add: sim_read_def)
    with f Inl show ?thesis by simp
  next
    case (Inr lim)
    define k where "k = min lim (min (total_size bufs) (length (rx t)))"
    from Inr st assms f have r: "ret = int k" "t1 = t0\<lparr>rx := drop k (rx t)\<rparr>"
      "m1 = scatter m bufs (take k (rx t))"
      by (simp_all add: sim_read_def Let_def k_def)
    have "k \<le> total_size bufs" "k \<le> length (rx t)" by (simp_all add: k_def)
    moreover have "good_script (script t) \<and> 0 < total_size bufs \<and> rx t \<noteq> [] \<longrightarrow> 0 < k"
      using f Inr by (simp add: k_def)
    ultimately show ?thesis using r f by simp
  qed
qed

lemma rw_loop_step_write:
  assumes "bufs \<noteq> []" "length bufs < 2 ^ 64" "write ops d m bufs = (ret, d1)"
    "ret \<le> int (total_size bufs)"
  shows "rw_loop ops False bytes bufs (length bufs) count d m =
     (if ret \<le> 0 then Some (ret, d1, m)
      else if adv (nat ret) bufs = [] then Some (count + ret, d1, m)
      else rw_loop ops False bytes (adv (nat ret) bufs) (length (adv (nat ret) bufs))
             (count + ret) d1 m)"
proof -
  from assms(1) obtain cur rest where ne: "bufs = cur # rest" by (cases bufs) auto
  have "rw_loop ops False bytes bufs (length bufs) count d m =
     (if ret \<le> 0 then Some (ret, d1, m)
      else if adv (nat ret) bufs = [] then Some (count + ret, d1, m)
      else rw_loop ops False bytes (adv (nat ret) bufs @ drop (length bufs) (cur # rest))
             (length (adv (nat ret) bufs)) (count + ret) d1 m)"
    by (rule rw_loop_step [where trunc = False and ?cur1.0 = cur and rest = rest and cur = cur])
      (use assms ne in simp_all)
  then show ?thesis using ne by simp
qed

lemma rw_loop_step_read:
  assumes ne: "bufs = cur # rest" and len: "length bufs < 2 ^ 64"
    and nt: "wrap64 (int bytes - count) \<le> size cur \<longrightarrow>
               rest = [] \<and> wrap64 (int bytes - count) = size cur"
    and rd: "read ops d m bufs = (ret, d1, m1)"
    and le: "ret \<le> int (total_size bufs)"
  shows "rw_loop ops True bytes bufs (length bufs) count d m =
     (if ret \<le> 0 then Some (ret, d1, m1)
      else if adv (nat ret) bufs = [] then Some (count + ret, d1, m1)
      else rw_loop ops True bytes (adv (nat ret) bufs) (length (adv (nat ret) bufs))
             (count + ret) d1 m1)"
proof -
  define trunc where "trunc = (True \<and> wrap64 (int bytes - count) \<le> size cur)"
  define cur1 where "cur1 = (if trunc then cur\<lparr>size := wrap64 (int bytes - count)\<rparr> else cur)"
  define nb1 where "nb1 = (if trunc then 1 else length bufs)"
  have c: "cur1 = cur" using nt by (simp add: cur1_def trunc_def)
  have n: "nb1 = length bufs" using nt ne by (auto simp: nb1_def trunc_def)
  have "rw_loop ops True bytes bufs (length bufs) count d m =
     (if ret \<le> 0 then Some (ret, d1, m1)
      else if adv (nat ret) bufs = [] then Some (count + ret, d1, m1)
      else rw_loop ops True bytes (adv (nat ret) bufs @ drop nb1 (cur1 # rest))
             (length (adv (nat ret) bufs)) (count + ret) d1 m1)"
    by (rule rw_loop_step [where trunc = trunc and ?cur1.0 = cur1 and rest = rest and cur = cur
          and ?nb1.0 = nb1])
      (use ne len rd le c n in \<open>simp_all add: trunc_def cur1_def nb1_def\<close>)
  then show ?thesis using ne c n by simp
qed

lemma good_script_no_Fail: "good_script s \<Longrightarrow> Fail e \<notin> set s"
  by (auto simp: good_script_def list_all_iff)

lemma gather_adv: "k \<le> total_size bufs \<Longrightarrow> gather m (adv k bufs) = drop k (gather m bufs)"
  by (simp add: gather_def addrs_adv drop_map)

lemma adv_Nil_total: "k \<le> total_size bufs \<Longrightarrow> adv k bufs = [] \<Longrightarrow> k = total_size bufs"
  using adv_total [of k bufs] by simp

lemma adv_pos: "\<forall>b\<in>set bufs. 0 < size b \<Longrightarrow> \<forall>b\<in>set (adv k bufs). 0 < size b"
  by (induction bufs arbitrary: k) auto

lemma write_ops [simp]: "write (sim_ops h) = sim_write" "read (sim_ops h) = sim_read"
  "discard (sim_ops h) = sim_discard" "iiod_responder_ops.cmd (sim_ops h) = h"
  by (simp_all add: sim_ops_def)

lemma rw_loop_write_all:
  "good_script (script t) \<Longrightarrow> bufs \<noteq> [] \<Longrightarrow> length bufs < 2 ^ 64 \<Longrightarrow>
     \<exists>r t'. rw_loop (sim_ops h) False bytes bufs (length bufs) count t m = Some (r, t', m) \<and>
       tx t' = tx t @ gather m bufs \<and> rx t' = rx t \<and> good_script (script t') \<and>
       (r = count + int (total_size bufs) \<or> r = 0) \<and>
       ((\<forall>b\<in>set bufs. 0 < size b) \<longrightarrow> r = count + int (total_size bufs))"
proof (induction "total_size bufs + length bufs" arbitrary: bufs count t rule: less_induct)
  case less
  obtain ret t1 where w: "sim_write t m bufs = (ret, t1)" by (cases "sim_write t m bufs")
  note c = sim_write_cases [OF w]
  from c less.prems have nn: "0 \<le> ret" "tx t1 = tx t @ take (nat ret) (gather m bufs)"
    "0 < total_size bufs \<longrightarrow> 0 < ret" "good_script (script t1)" "rx t1 = rx t"
    "ret \<le> int (total_size bufs)"
    by (auto dest: good_script_no_Fail)
  note step = rw_loop_step_write [of bufs "sim_ops h" t m ret t1 bytes count,
      OF less.prems(2) less.prems(3) _ nn(6), unfolded write_ops, OF w]
  show ?case
  proof (cases "ret \<le> 0")
    case True
    with nn have z: "ret = 0" "total_size bufs = 0" by auto
    then have "gather m bufs = []" by (metis length_0_conv length_gather)
    moreover from z less.prems(2) have "\<not> (\<forall>b\<in>set bufs. 0 < size b)"
      by (cases bufs) auto
    ultimately show ?thesis using step True z nn by auto
  next
    case False
    then have pos: "0 < nat ret" "nat ret \<le> total_size bufs" using nn by auto
    show ?thesis
    proof (cases "adv (nat ret) bufs = []")
      case True
      from adv_Nil_total [OF pos(2) True] have "ret = int (total_size bufs)" using nn by simp
      with step False True nn show ?thesis by simp
    next
      case ne: False
      have m: "total_size (adv (nat ret) bufs) + length (adv (nat ret) bufs)
          < total_size bufs + length bufs"
        by (rule adv_measure [OF pos])
      have l: "length (adv (nat ret) bufs) < 2 ^ 64"
        using adv_length [of "nat ret" bufs] less.prems(3) by linarith
      from less.hyps [OF m nn(4) ne l, of "count + ret"] obtain r t' where
        ih: "rw_loop (sim_ops h) False bytes (adv (nat ret) bufs) (length (adv (nat ret) bufs))
              (count + ret) t1 m = Some (r, t', m)"
          "tx t' = tx t1 @ gather m (adv (nat ret) bufs)" "rx t' = rx t1"
          "good_script (script t')"
          "r = count + ret + int (total_size (adv (nat ret) bufs)) \<or> r = 0"
          "(\<forall>b\<in>set (adv (nat ret) bufs). 0 < size b) \<longrightarrow>
             r = count + ret + int (total_size (adv (nat ret) bufs))"
        by blast
      have tot: "ret + int (total_size (adv (nat ret) bufs)) = int (total_size bufs)"
        using adv_total [OF pos(2)] pos nn by simp
      have "tx t' = tx t @ gather m bufs"
        using ih(2) nn(2) gather_adv [OF pos(2), of m] by simp
      with step False ne ih tot nn adv_pos [of bufs "nat ret"] show ?thesis
        by (auto simp: algebra_simps)
    qed
  qed
qed

lemma write_seq_Nil [simp]: "write_seq m as [] = m" "write_seq m [] bs = m"
  by (simp_all add: write_seq_def)

lemma write_seq_append:
  "length as1 = length bs1 \<Longrightarrow>
     write_seq m (as1 @ as2) (bs1 @ bs2) = write_seq (write_seq m as1 bs1) as2 bs2"
  by (simp add: write_seq_def)

lemma zip_trunc: "zip (take (length bs) as) (take (length as) bs) = zip as bs"
  by (induction as bs rule: list_induct2') simp_all

lemma write_seq_trunc: "write_seq m as bs = write_seq m (take (length bs) as) (take (length as) bs)"
  by (simp add: write_seq_def zip_trunc)

lemma write_seq_chain:
  assumes "k \<le> n" "n = length as" "n \<le> length bs"
  shows "write_seq (write_seq m as (take k bs)) (drop k as) (take (n - k) (drop k bs))
     = write_seq m as (take n bs)"
proof -
  have a: "as = take k as @ drop k as" by simp
  have b: "take n bs = take k bs @ take (n - k) (drop k bs)"
    using assms by (metis le_add_diff_inverse take_add)
  have c: "write_seq m as (take k bs) = write_seq m (take k as) (take k bs)"
    using assms by (subst write_seq_trunc) (simp add: min_def)
  have "write_seq m (take k as @ drop k as) (take k bs @ take (n - k) (drop k bs))
      = write_seq (write_seq m (take k as) (take k bs)) (drop k as) (take (n - k) (drop k bs))"
    using assms by (intro write_seq_append) simp
  with a b c show ?thesis by simp
qed

lemma rw_loop_read_all:
  "good_script (script t) \<Longrightarrow> bufs \<noteq> [] \<Longrightarrow> length bufs < 2 ^ 64 \<Longrightarrow>
   \<forall>b\<in>set bufs. 0 < size b \<Longrightarrow> 0 \<le> count \<Longrightarrow> count + int (total_size bufs) \<le> int bytes \<Longrightarrow>
   bytes < 2 ^ 64 \<Longrightarrow> total_size bufs \<le> length (rx t) \<Longrightarrow>
     \<exists>t'. rw_loop (sim_ops h) True bytes bufs (length bufs) count t m =
             Some (count + int (total_size bufs), t',
                   scatter m bufs (take (total_size bufs) (rx t))) \<and>
       rx t' = drop (total_size bufs) (rx t) \<and> tx t' = tx t \<and> good_script (script t')"
proof (induction "total_size bufs + length bufs" arbitrary: bufs count t m rule: less_induct)
  case less
  from less.prems(2) obtain cur rest where ne: "bufs = cur # rest" by (cases bufs) auto
  have tpos: "0 < total_size bufs" using ne less.prems(4) by simp
  then have rxne: "rx t \<noteq> []" using less.prems(8) by auto
  obtain ret t1 m1 where rd: "sim_read t m bufs = (ret, t1, m1)"
    by (cases "sim_read t m bufs") auto
  from sim_read_cases [OF rd] less.prems(1) tpos rxne
  have nn: "0 < ret" "ret \<le> int (total_size bufs)" "rx t1 = drop (nat ret) (rx t)"
    "m1 = scatter m bufs (take (nat ret) (rx t))" "tx t1 = tx t" "good_script (script t1)"
    by (auto dest: good_script_no_Fail)
  have w: "wrap64 (int bytes - count) = nat (int bytes - count)"
    using less.prems by (intro wrap64_small) auto
  have nt: "wrap64 (int bytes - count) \<le> size cur \<longrightarrow>
      rest = [] \<and> wrap64 (int bytes - count) = size cur"
  proof
    assume a: "wrap64 (int bytes - count) \<le> size cur"
    with w less.prems(6) ne have "total_size rest = 0" "nat (int bytes - count) = size cur"
      by auto
    moreover have "rest = []"
    proof (cases rest)
      case (Cons b bs)
      with ne less.prems(4) have "0 < size b" by simp
      with Cons \<open>total_size rest = 0\<close> show ?thesis by simp
    qed simp
    ultimately show "rest = [] \<and> wrap64 (int bytes - count) = size cur" using w by simp
  qed
  note step = rw_loop_step_read [of bufs cur rest bytes count "sim_ops h" t m ret t1 m1,
      OF ne less.prems(3) nt _ nn(2), unfolded write_ops, OF rd]
  have pos: "0 < nat ret" "nat ret \<le> total_size bufs" using nn by auto
  show ?case
  proof (cases "adv (nat ret) bufs = []")
    case True
    from adv_Nil_total [OF pos(2) True] have "ret = int (total_size bufs)" using nn by simp
    with step True nn show ?thesis by simp
  next
    case False
    let ?bufs' = "adv (nat ret) bufs"
    have m: "total_size ?bufs' + length ?bufs' < total_size bufs + length bufs"
      by (rule adv_measure [OF pos])
    have l: "length ?bufs' < 2 ^ 64"
      using adv_length [of "nat ret" bufs] less.prems(3) by linarith
    have tot: "total_size ?bufs' = total_size bufs - nat ret" by (rule adv_total [OF pos(2)])
    have p1: "\<forall>b\<in>set ?bufs'. 0 < size b" by (rule adv_pos [OF less.prems(4)])
    have p2: "0 \<le> count + ret" using less.prems(5) nn by simp
    have p3: "count + ret + int (total_size ?bufs') \<le> int bytes"
      using tot pos less.prems(6) nn by simp
    have p4: "total_size ?bufs' \<le> length (rx t1)" using tot nn(3) less.prems(8) by simp
    from less.hyps [OF m nn(6) False l p1 p2 p3 less.prems(7) p4, of m1] obtain t' where
      ih: "rw_loop (sim_ops h) True bytes ?bufs' (length ?bufs') (count + ret) t1 m1 =
             Some (count + ret + int (total_size ?bufs'), t',
                   scatter m1 ?bufs' (take (total_size ?bufs') (rx t1)))"
        "rx t' = drop (total_size ?bufs') (rx t1)" "tx t' = tx t1" "good_script (script t')"
      by blast
    have e1: "count + ret + int (total_size ?bufs') = count + int (total_size bufs)"
      using tot pos nn by simp
    have e2: "scatter m1 ?bufs' (take (total_size ?bufs') (rx t1)) =
        scatter m bufs (take (total_size bufs) (rx t))"
      unfolding scatter_def nn(4) nn(3) tot addrs_adv [OF pos(2)]
      by (rule write_seq_chain) (use pos less.prems(8) in simp_all)
    have e3: "drop (total_size ?bufs') (rx t1) = drop (total_size bufs) (rx t)"
      using tot nn(3) pos by simp
    from step False nn(1) ih e1 e2 e3 nn(5) show ?thesis by simp
  qed
qed

lemma discard_all:
  "good_script (script t) \<Longrightarrow> n \<le> length (rx t) \<Longrightarrow> n < 2 ^ 64 \<Longrightarrow>
     \<exists>t'. iiod_discard_data (sim_ops h) t n = Some (0, t') \<and> rx t' = drop n (rx t) \<and>
       tx t' = tx t \<and> good_script (script t')"
proof (induction n arbitrary: t rule: less_induct)
  case (less n)
  show ?case
  proof (cases "n = 0")
    case True
    with less.prems show ?thesis by (subst iiod_discard_data.simps) simp
  next
    case False
    obtain x t0 where st: "sim_take t n = (x, t0)" by (cases "sim_take t n")
    note f = sim_take_cases [OF st]
    with less.prems(1) obtain lim where x: "x = Inr lim" "0 < lim"
      using False by (cases x) (auto dest: good_script_no_Fail)
    define k where "k = min lim (min n (length (rx t)))"
    have k: "0 < k" "k \<le> n" "k \<le> length (rx t)" using x False less.prems by (auto simp: k_def)
    have ne: "rx t0 \<noteq> []" using f less.prems False by auto
    have d: "sim_discard t n = (int k, t0\<lparr>rx := drop k (rx t)\<rparr>)"
      using st x ne f by (simp add: sim_discard_def Let_def k_def)
    have w: "wrap64 (int n - int k) = n - k" using k less.prems by (simp add: wrap64_def nat_diff_distrib)
    have "n - k < n" using k by simp
    moreover have "good_script (script (t0\<lparr>rx := drop k (rx t)\<rparr>))"
      "n - k \<le> length (rx (t0\<lparr>rx := drop k (rx t)\<rparr>))" "n - k < 2 ^ 64"
      using f less.prems k by simp_all
    ultimately obtain t' where ih:
      "iiod_discard_data (sim_ops h) (t0\<lparr>rx := drop k (rx t)\<rparr>) (n - k) = Some (0, t')"
      "rx t' = drop (n - k) (rx (t0\<lparr>rx := drop k (rx t)\<rparr>))"
      "tx t' = tx (t0\<lparr>rx := drop k (rx t)\<rparr>)" "good_script (script t')"
      using less.IH [of "n - k" "t0\<lparr>rx := drop k (rx t)\<rparr>"] by blast
    have "iiod_discard_data (sim_ops h) t n = iiod_discard_data (sim_ops h) (t0\<lparr>rx := drop k (rx t)\<rparr>) (n - k)"
      using False d w k by (subst iiod_discard_data.simps) simp
    with ih k f show ?thesis by simp
  qed
qed

lemma moved_trans: "moved t t1 + moved t1 t' = moved t t'"
  by (simp add: moved_def)

lemma total_take_drop: "total_size (take n xs) + total_size (drop n xs) = total_size xs"
  by (metis append_take_drop_id total_size_simps(3))

lemma logged_simps [simp]:
  "read (logged ops) (d, l) m bufs = (case read ops d m bufs of (r, d', m') \<Rightarrow> (r, (d', l @ [r]), m'))"
  "write (logged ops) (d, l) m bufs = (case write ops d m bufs of (r, d') \<Rightarrow> (r, (d', l @ [r])))"
  by (simp_all add: logged_def)

text \<open>
  The codec on the reference transport, for every script: it calls the transport until a
  call returns a value that is not positive, which it returns, or until everything is
  transferred, and then returns what the calls returned in total.
\<close>

lemma rw_loop_logged_result:
  "1 \<le> nb \<Longrightarrow> nb \<le> length bufs \<Longrightarrow> nb < 2 ^ 64 \<Longrightarrow>
     \<exists>r t' m' rs. rw_loop (sim_ops h) is_read bytes bufs nb count t m = Some (r, t', m') \<and>
       rw_loop (logged (sim_ops h)) is_read bytes bufs nb count (t, l) m = Some (r, (t', l @ rs), m') \<and>
       rs \<noteq> [] \<and> (\<forall>x\<in>set (butlast rs). 0 < x) \<and>
       moved t t' = sum_list (filter (\<lambda>x. 0 < x) rs) \<and>
       (0 < last rs \<longrightarrow> r = count + sum_list rs) \<and>
       (last rs \<le> 0 \<longrightarrow> r = last rs) \<and>
       (0 < last rs \<and>
        (is_read \<longrightarrow> 0 \<le> count \<and> count + int (total_size (take nb bufs)) \<le> int bytes \<and>
           bytes < 2 ^ 64) \<longrightarrow>
          r = count + int (total_size (take nb bufs)))"
proof (induction "total_size bufs + length bufs" arbitrary: bufs nb count t l m rule: less_induct)
  case less
  from less.prems obtain cur rest where ne: "bufs = cur # rest" by (cases bufs) auto
  define trunc where "trunc = (is_read \<and> wrap64 (int bytes - count) \<le> size cur)"
  define cur1 where "cur1 = (if trunc then cur\<lparr>size := wrap64 (int bytes - count)\<rparr> else cur)"
  define nb1 where "nb1 = (if trunc then 1 else nb)"
  define act where "act = take nb1 (cur1 # rest)"
  define inact where "inact = drop nb1 (cur1 # rest)"
  obtain ret t1 m1 where x: "(if is_read then read (sim_ops h) t m act
      else (case write (sim_ops h) t m act of (r, d') \<Rightarrow> (r, d', m))) = (ret, t1, m1)"
    by (metis prod_cases3)
  have xl: "(if is_read then read (logged (sim_ops h)) (t, l) m act
      else (case write (logged (sim_ops h)) (t, l) m act of (r, d') \<Rightarrow> (r, d', m)))
        = (ret, (t1, l @ [ret]), m1)"
    using x by (auto split: prod.splits if_splits)
  have sz: "size cur1 \<le> size cur" by (simp add: cur1_def trunc_def)
  have n1: "1 \<le> nb1" "nb1 \<le> length (cur1 # rest)" using less.prems ne by (auto simp: nb1_def)
  have facts: "ret \<le> int (total_size act) \<and> moved t t1 = (if 0 < ret then ret else 0)"
  proof (cases is_read)
    case True
    with x have "sim_read t m act = (ret, t1, m1)" by simp
    from sim_read_cases [OF this] show ?thesis by (auto simp: moved_def)
  next
    case False
    with x obtain "sim_write t m act = (ret, t1)" by (cases "sim_write t m act") auto
    from sim_write_cases [OF this] show ?thesis by (auto simp: moved_def)
  qed
  have wr: "total_size act = total_size (take nb bufs)"
    if "is_read \<longrightarrow> 0 \<le> count \<and> count + int (total_size (take nb bufs)) \<le> int bytes \<and>
           bytes < 2 ^ 64"
  proof (cases trunc)
    case False
    then show ?thesis by (simp add: act_def nb1_def cur1_def ne)
  next
    case True
    with that have r: "is_read" "0 \<le> count" "count + int (total_size (take nb bufs)) \<le> int bytes"
      "bytes < 2 ^ 64" "wrap64 (int bytes - count) \<le> size cur"
      by (simp_all add: trunc_def)
    from r(2,3,4) have w: "wrap64 (int bytes - count) = nat (int bytes - count)"
      by (intro wrap64_small) simp_all
    from less.prems(1) obtain k where k: "nb = Suc k" by (cases nb) auto
    have t: "total_size (take nb bufs) = size cur + total_size (take k rest)"
      by (simp add: ne k)
    with r(3,5) w have "size cur = nat (int bytes - count)" "total_size (take k rest) = 0" by linarith+
    with True t w show ?thesis by (simp add: act_def nb1_def cur1_def)
  qed
  have step: "rw_loop (sim_ops h) is_read bytes bufs nb count t m =
     (if ret \<le> 0 then Some (ret, t1, m1)
      else if adv (nat ret) act = [] then Some (count + ret, t1, m1)
      else rw_loop (sim_ops h) is_read bytes (adv (nat ret) act @ drop nb1 (cur1 # rest))
             (length (adv (nat ret) act)) (count + ret) t1 m1)"
    by (rule rw_loop_step [OF ne less.prems trunc_def cur1_def nb1_def act_def x]) (use facts in simp)
  have stepl: "rw_loop (logged (sim_ops h)) is_read bytes bufs nb count (t, l) m =
     (if ret \<le> 0 then Some (ret, (t1, l @ [ret]), m1)
      else if adv (nat ret) act = [] then Some (count + ret, (t1, l @ [ret]), m1)
      else rw_loop (logged (sim_ops h)) is_read bytes (adv (nat ret) act @ drop nb1 (cur1 # rest))
             (length (adv (nat ret) act)) (count + ret) (t1, l @ [ret]) m1)"
    by (rule rw_loop_step [OF ne less.prems trunc_def cur1_def nb1_def act_def xl]) (use facts in simp)
  show ?case
  proof (cases "ret \<le> 0")
    case True
    with step stepl facts show ?thesis
      by (intro exI [of _ ret] exI [of _ t1] exI [of _ m1] exI [of _ "[ret]"]) simp
  next
    case False
    with facts have mv: "moved t t1 = ret" and pos: "0 < nat ret" "nat ret \<le> total_size act"
      by auto
    show ?thesis
    proof (cases "adv (nat ret) act = []")
      case True
      from adv_Nil_total [OF pos(2) True] pos have "int (total_size act) = ret" by simp
      with step stepl False True mv wr show ?thesis
        by (intro exI [of _ "count + ret"] exI [of _ t1] exI [of _ m1] exI [of _ "[ret]"]) auto
    next
      case ne': False
      let ?bufs' = "adv (nat ret) act @ inact"
      have "total_size act + total_size inact = total_size (cur1 # rest)"
        unfolding act_def inact_def by (rule total_take_drop)
      moreover have "length act + length inact = length (cur1 # rest)"
        unfolding act_def inact_def by simp
      moreover note adv_measure [OF pos] sz
      ultimately have m: "total_size ?bufs' + length ?bufs' < total_size bufs + length bufs"
        using ne by simp
      have a: "1 \<le> length (adv (nat ret) act)" using ne' by (cases "adv (nat ret) act") auto
      have b: "length (adv (nat ret) act) \<le> length ?bufs'" by simp
      have "length (adv (nat ret) act) \<le> length act" by (rule adv_length)
      also have "\<dots> \<le> nb1" by (simp add: act_def)
      also have "\<dots> < 2 ^ 64" using less.prems by (simp add: nb1_def)
      finally have c: "length (adv (nat ret) act) < 2 ^ 64" .
      from less.hyps [OF m a b c, where count = "count + ret" and t = t1 and l = "l @ [ret]" and m = m1] obtain r t' m' rs where
        ih: "rw_loop (sim_ops h) is_read bytes ?bufs' (length (adv (nat ret) act)) (count + ret) t1 m1
              = Some (r, t', m')"
          "rw_loop (logged (sim_ops h)) is_read bytes ?bufs' (length (adv (nat ret) act)) (count + ret)
              (t1, l @ [ret]) m1 = Some (r, (t', (l @ [ret]) @ rs), m')"
          "rs \<noteq> []" "\<forall>x\<in>set (butlast rs). 0 < x"
          "moved t1 t' = sum_list (filter (\<lambda>x. 0 < x) rs)"
          "0 < last rs \<longrightarrow> r = count + ret + sum_list rs"
          "last rs \<le> 0 \<longrightarrow> r = last rs"
          "0 < last rs \<and>
             (is_read \<longrightarrow> 0 \<le> count + ret \<and>
                count + ret + int (total_size (take (length (adv (nat ret) act)) ?bufs')) \<le> int bytes \<and>
                bytes < 2 ^ 64) \<longrightarrow>
             r = count + ret + int (total_size (take (length (adv (nat ret) act)) ?bufs'))"
        by blast
      have tot: "int (total_size (adv (nat ret) act)) = int (total_size act) - ret"
        using adv_total [of "nat ret" act] pos by simp
      have 1: "rw_loop (sim_ops h) is_read bytes bufs nb count t m = Some (r, t', m')"
        using step False ne' ih(1) by (simp add: inact_def)
      have 2: "rw_loop (logged (sim_ops h)) is_read bytes bufs nb count (t, l) m
          = Some (r, (t', l @ (ret # rs)), m')"
        using stepl False ne' ih(2) by (simp add: inact_def)
      have 3: "\<forall>x\<in>set (butlast (ret # rs)). 0 < x" using ih(3,4) False by simp
      have 4: "moved t t' = sum_list (filter (\<lambda>x. 0 < x) (ret # rs))"
        using ih(5) mv moved_trans [of t t1 t'] False by simp
      have 5: "0 < last (ret # rs) \<longrightarrow> r = count + sum_list (ret # rs)" using ih(3,6) by simp
      have 6: "last (ret # rs) \<le> 0 \<longrightarrow> r = last (ret # rs)" using ih(3,7) by simp
      have 7: "0 < last (ret # rs) \<and>
          (is_read \<longrightarrow> 0 \<le> count \<and> count + int (total_size (take nb bufs)) \<le> int bytes \<and>
             bytes < 2 ^ 64) \<longrightarrow>
          r = count + int (total_size (take nb bufs))"
      proof (intro impI)
        assume p: "0 < last (ret # rs) \<and>
          (is_read \<longrightarrow> 0 \<le> count \<and> count + int (total_size (take nb bufs)) \<le> int bytes \<and>
             bytes < 2 ^ 64)"
        then have w: "total_size act = total_size (take nb bufs)" by (intro wr) simp
        have "take (length (adv (nat ret) act)) ?bufs' = adv (nat ret) act" by simp
        with p w tot False ih(3,8) show "r = count + int (total_size (take nb bufs))" by auto
      qed
      from 1 2 3 4 5 6 7 show ?thesis
        by (intro exI [of _ r] exI [of _ t'] exI [of _ m'] exI [of _ "ret # rs"]) simp
    qed
  qed
qed

lemma filter_all_pos: "\<forall>x\<in>set rs. P x \<Longrightarrow> filter P rs = rs"
  by (induction rs) simp_all

section \<open>Properties of the lists and of the two threads\<close>

lemma write_seq_outside: "a \<notin> set as \<Longrightarrow> write_seq m as bs a = m a"
proof (induction as arbitrary: m bs)
  case Nil
  then show ?case by simp
next
  case (Cons x as)
  then show ?case by (cases bs) (simp_all add: write_seq_def)
qed

lemma write_seq_Cons: "write_seq m (a # as) (b # bs) = write_seq (m(a := b)) as bs"
  by (simp add: write_seq_def)

lemma write_seq_nth:
  "distinct as \<Longrightarrow> length as = length bs \<Longrightarrow> i < length as \<Longrightarrow>
     write_seq m as bs (as ! i) = bs ! i"
proof (induction as arbitrary: m bs i)
  case Nil
  then show ?case by simp
next
  case (Cons a as)
  then obtain b bs' where bs: "bs = b # bs'" by (cases bs) auto
  show ?case
  proof (cases i)
    case 0
    with Cons.prems bs show ?thesis by (simp add: write_seq_Cons write_seq_outside)
  next
    case (Suc j)
    with Cons bs show ?thesis by (simp add: write_seq_Cons)
  qed
qed

lemma write_seq_upt:
  "length bs = n \<Longrightarrow> i < n \<Longrightarrow> write_seq m [a ..< a + n] bs (a + i) = bs ! i"
  using write_seq_nth [of "[a ..< a + n]" bs i m] by simp

lemma scatter_header_nth:
  "length bs = 8 \<Longrightarrow> i < 8 \<Longrightarrow> scatter m [\<lparr>ptr = a, size = 8\<rparr>] bs (a + i) = bs ! i"
  using write_seq_upt [of bs 8 i m a] by (simp add: scatter_def)

lemma load_cmd_header:
  assumes "length bs = 8"
  shows "load_cmd (scatter m [\<lparr>ptr = a, size = 8\<rparr>] bs) a = cmd_of_bytes bs"
proof -
  note k = scatter_header_nth [OF assms, of _ m a]
  have "scatter m [\<lparr>ptr = a, size = 8\<rparr>] bs a = bs ! 0" using k [of 0] by simp
  then show ?thesis
    unfolding load_cmd_def cmd_of_bytes_def
    by (simp only: k [of 1] k [of 2] k [of 3] k [of 4] k [of 5] k [of 6] k [of 7])
      (simp add: numeral_2_eq_2)
qed

lemma find_reader_rlist:
  "rlist hp p xs \<Longrightarrow> find_reader hp p ident = Some (find (\<lambda>x. client_id (hp x) = ident) xs)"
proof (induction xs arbitrary: p)
  case Nil
  then show ?case by (subst find_reader.simps) simp
next
  case (Cons x xs)
  then show ?case by (subst find_reader.simps) simp
qed

lemma reader_unlink_rlist:
  "rlist hp (Some h) xs \<Longrightarrow>
     \<exists>t v. reader_unlink hp h io = Some (hp(t := (hp t)\<lparr>r_next := v\<rparr>))"
proof (induction xs arbitrary: h)
  case Nil
  then show ?case by simp
next
  case (Cons x xs)
  then have h: "h = x" and r: "rlist hp (r_next (hp x)) xs" by simp_all
  show ?case
  proof (cases "r_next (hp x)")
    case None
    have e: "hp = hp(x := (hp x)\<lparr>r_next := r_next (hp x)\<rparr>)" by simp
    have "reader_unlink hp h io = Some hp"
      using None h by (subst reader_unlink.simps) simp
    with e show ?thesis by metis
  next
    case (Some n)
    show ?thesis
    proof (cases "n = io")
      case True
      have "reader_unlink hp h io = Some (hp(x := (hp x)\<lparr>r_next := r_next (hp io)\<rparr>))"
        using Some h True by (subst reader_unlink.simps) simp
      then show ?thesis by blast
    next
      case False
      from r Some have "rlist hp (Some n) xs" by simp
      from Cons.IH [OF this] obtain t v where
        u: "reader_unlink hp n io = Some (hp(t := (hp t)\<lparr>r_next := v\<rparr>))" by blast
      have "reader_unlink hp h io = reader_unlink hp n io"
        using Some h False by (subst reader_unlink.simps) simp
      with u have "reader_unlink hp h io = Some (hp(t := (hp t)\<lparr>r_next := v\<rparr>))" by simp
      then show ?thesis by (rule_tac x = t in exI, rule_tac x = v in exI)
    qed
  qed
qed

lemma iiod_reader_cancel_unlocked_rlist:
  assumes "rlist hp (readers p) xs"
  shows "\<exists>v t u. iiod_reader_cancel_unlocked p hp io =
      Some (p\<lparr>readers := v\<rparr>, hp(t := (hp t)\<lparr>r_next := u\<rparr>))"
proof -
  have e: "hp = hp(io := (hp io)\<lparr>r_next := r_next (hp io)\<rparr>)" by simp
  show ?thesis
  proof (cases "readers p = Some io")
    case True
    then have "iiod_reader_cancel_unlocked p hp io = Some (p\<lparr>readers := None\<rparr>, hp)"
      by (simp add: iiod_reader_cancel_unlocked_def)
    with e show ?thesis by metis
  next
    case False
    show ?thesis
    proof (cases "readers p")
      case None
      then have "iiod_reader_cancel_unlocked p hp io = Some (p\<lparr>readers := None\<rparr>, hp)"
        by (simp add: iiod_reader_cancel_unlocked_def)
      with e show ?thesis by metis
    next
      case (Some h)
      with assms have "rlist hp (Some h) xs" by simp
      from reader_unlink_rlist [OF this, of io] obtain t v where
        "reader_unlink hp h io = Some (hp(t := (hp t)\<lparr>r_next := v\<rparr>))" by blast
      with Some False have "iiod_reader_cancel_unlocked p hp io =
          Some (p\<lparr>readers := Some h\<rparr>, hp(t := (hp t)\<lparr>r_next := v\<rparr>))"
        by (simp add: iiod_reader_cancel_unlocked_def)
      then show ?thesis by blast
    qed
  qed
qed

lemma read_header:
  assumes "good_script (script t)" "8 \<le> length (rx t)"
  shows "\<exists>t'. iiod_rw_all (sim_ops h) t m None (Some [\<lparr>ptr = a, size = 8\<rparr>]) 1 8 True =
             Some (8, t', scatter m [\<lparr>ptr = a, size = 8\<rparr>] (take 8 (rx t))) \<and>
       rx t' = drop 8 (rx t) \<and> tx t' = tx t \<and> good_script (script t')"
  using rw_loop_read_all [of t "[\<lparr>ptr = a, size = 8\<rparr>]" 0 8 h m] assms
  by (simp add: iiod_rw_all_def load_bufs_def)

lemma reader_thrd_iter_found:
  assumes gs: "good_script (script (transport w))" and len: "8 \<le> length (rx (transport w))"
    and c: "c = cmd_of_bytes (take 8 (rx (transport w)))"
    and resp: "op c = IIOD_OP_RESPONSE"
    and rl: "rlist (heap w) (readers (priv w)) xs"
    and fd: "find (\<lambda>x. client_id (heap w x) = iiod_command.client_id c) xs = Some reader"
  shows "\<exists>t1. iiod_responder_reader_thrd_iter (sim_ops h) cmd_addr w =
        deliver_response (sim_ops h)
          (w\<lparr>transport := t1,
             mem := scatter (mem w) [\<lparr>ptr = cmd_addr, size = 8\<rparr>] (take 8 (rx (transport w)))\<rparr>)
          c 8 reader \<and>
      rx t1 = drop 8 (rx (transport w)) \<and> tx t1 = tx (transport w) \<and> good_script (script t1)"
proof -
  from read_header [OF gs len, of h "mem w" cmd_addr] obtain t1 where
    rd: "iiod_rw_all (sim_ops h) (transport w) (mem w) None (Some [\<lparr>ptr = cmd_addr, size = 8\<rparr>]) 1 8 True =
             Some (8, t1, scatter (mem w) [\<lparr>ptr = cmd_addr, size = 8\<rparr>] (take 8 (rx (transport w))))"
    and t1: "rx t1 = drop 8 (rx (transport w))" "tx t1 = tx (transport w)" "good_script (script t1)"
    by blast
  have lc: "load_cmd (scatter (mem w) [\<lparr>ptr = cmd_addr, size = 8\<rparr>] (take 8 (rx (transport w)))) cmd_addr = c"
    unfolding c using len by (intro load_cmd_header) simp
  have f: "find_reader (heap w) (readers (priv w)) (iiod_command.client_id c) = Some (Some reader)"
    using find_reader_rlist [OF rl] fd by simp
  have "iiod_responder_reader_thrd_iter (sim_ops h) cmd_addr w =
        deliver_response (sim_ops h)
          (w\<lparr>transport := t1,
             mem := scatter (mem w) [\<lparr>ptr = cmd_addr, size = 8\<rparr>] (take 8 (rx (transport w)))\<rparr>)
          c 8 reader"
    unfolding iiod_responder_reader_thrd_iter_def
    using rd lc resp f by (simp add: Let_def)
  with t1 show ?thesis by blast
qed

lemma sint32_bounds: "- (2 ^ 31) \<le> sint (x :: 32 word)" "sint (x :: 32 word) < 2 ^ 31"
  using sint_ge [of x] sint_lt [of x] by simp_all

lemma load_bufs_length: "load_bufs cmd_buf arr nb = Some bufs \<Longrightarrow> 1 \<le> nb \<Longrightarrow> length bufs = nb"
  by (auto simp: load_bufs_def split: option.splits if_splits)

lemma iiod_rw_all_EINVAL:
  assumes "nb < 2 ^ 64"
    and "(cmd_buf = None \<and> nb = 0) \<or> 32 < nb + (if cmd_buf = None then 0 else 1)"
  shows "iiod_rw_all ops d m cmd_buf arr nb bytes is_read = Some (EINVAL, d, m)"
proof (cases "cmd_buf = None")
  case True
  with assms show ?thesis by (auto simp: iiod_rw_all_def)
next
  case False
  with assms have b: "32 < nb + 1" by simp
  have "wrap64 (int nb + 1) = 0 \<or> 32 < wrap64 (int nb + 1)"
  proof (cases "nb + 1 = 2 ^ 64")
    case True
    then have "int (nb + 1) = int (2 ^ 64)" by (rule arg_cong)
    then have "int nb + 1 = 2 ^ 64" by simp
    then show ?thesis by (simp add: wrap64_def)
  next
    case False
    with assms(1) have "int nb + 1 < 2 ^ 64" by simp
    then have "wrap64 (int nb + 1) = nb + 1" by (simp add: wrap64_def nat_add_distrib)
    with b show ?thesis by simp
  qed
  with False show ?thesis by (auto simp: iiod_rw_all_def)
qed

lemma last_writer_wlist:
  "wlist hp (Some h) xs \<Longrightarrow> w_next v = None \<Longrightarrow> \<exists>l. last_writer (hp(a := v)) h = Some l"
proof (induction xs arbitrary: h)
  case Nil
  then show ?case by simp
next
  case (Cons x xs)
  then have h: "h = x" and r: "wlist hp (w_next (hp x)) xs" by simp_all
  show ?case
  proof (cases "x = a")
    case True
    with h Cons.prems show ?thesis by (subst last_writer.simps) simp
  next
    case False
    show ?thesis
    proof (cases "w_next (hp x)")
      case None
      with h False show ?thesis by (subst last_writer.simps) simp
    next
      case (Some n)
      with r have "wlist hp (Some n) xs" by simp
      from Cons.IH [OF this Cons.prems(2)] obtain l where "last_writer (hp(a := v)) n = Some l"
        by blast
      with h False Some show ?thesis by (subst last_writer.simps) simp
    qed
  qed
qed

lemma iiod_enqueue_command_returns:
  assumes "wlist (heap w) (writers (priv w)) xs"
  shows "iiod_enqueue_command w writer op' dev' code' arr nb cleanup cleanup_d \<noteq> None"
proof (cases "writers (priv w)")
  case None
  then show ?thesis by (simp add: iiod_enqueue_command_def Let_def)
next
  case (Some h)
  with assms have "wlist (heap w) (Some h) xs" by simp
  from last_writer_wlist [OF this] Some show ?thesis
    by (auto simp: iiod_enqueue_command_def Let_def split: option.splits)
qed

lemma sint32_of_int: "- (2 ^ 31) \<le> x \<Longrightarrow> x < 2 ^ 31 \<Longrightarrow> sint (word_of_int x :: 32 word) = x"
  by (simp add: sint_sbintrunc' signed_take_bit_int_eq_self)

lemma map_write_seq: "distinct as \<Longrightarrow> length bs = length as \<Longrightarrow> map (write_seq m as bs) as = bs"
  by (simp add: list_eq_iff_nth_eq write_seq_nth)

lemma gather_scatter:
  "distinct (addrs bufs) \<Longrightarrow> length bs = total_size bufs \<Longrightarrow> gather (scatter m bufs bs) bufs = bs"
  by (simp add: gather_def scatter_def map_write_seq)

text \<open>
  A RESPONSE that matches no waiter and carries a code that is not negative: the pass of
  the reader thread consumes the header and exactly \<open>code\<close> further bytes.
\<close>

lemma reader_thrd_orphan_discards:
  assumes gs: "good_script (script (transport w))"
    and c: "c = cmd_of_bytes (take 8 (rx (transport w)))"
    and resp: "op c = IIOD_OP_RESPONSE"
    and rl: "rlist (heap w) (readers (priv w)) xs"
    and fd: "find (\<lambda>x. client_id (heap w x) = iiod_command.client_id c) xs = None"
    and nn: "0 \<le> sint (code c)"
    and avail: "8 + nat (sint (code c)) \<le> length (rx (transport w))"
  shows "\<exists>ret w'. iiod_responder_reader_thrd_iter (sim_ops h) cmd_addr w = Some (Continue ret w') \<and>
      rx (transport w') = drop (8 + nat (sint (code c))) (rx (transport w)) \<and>
      heap w' = heap w \<and> priv w' = priv w"
proof -
  let ?rx = "rx (transport w)"
  let ?m1 = "scatter (mem w) [\<lparr>ptr = cmd_addr, size = 8\<rparr>] (take 8 ?rx)"
  have len: "8 \<le> length ?rx" using avail by simp
  from read_header [OF gs len, of h "mem w" cmd_addr] obtain t1 where
    rd: "iiod_rw_all (sim_ops h) (transport w) (mem w) None (Some [\<lparr>ptr = cmd_addr, size = 8\<rparr>]) 1 8 True =
             Some (8, t1, ?m1)"
    and t1: "rx t1 = drop 8 ?rx" "good_script (script t1)"
    by blast
  have lc: "load_cmd ?m1 cmd_addr = c"
    unfolding c using len by (intro load_cmd_header) simp
  have f: "find_reader (heap w) (readers (priv w)) (iiod_command.client_id c) = Some None"
    using find_reader_rlist [OF rl] fd by simp
  have w: "wrap64 (sint (code c)) = nat (sint (code c))"
    using nn sint32_bounds(2) [of "code c"] by (intro wrap64_small) simp_all
  have "\<exists>t'. iiod_discard_data (sim_ops h) t1 (nat (sint (code c))) = Some (0, t') \<and>
      rx t' = drop (nat (sint (code c))) (rx t1) \<and> tx t' = tx t1 \<and> good_script (script t')"
    by (rule discard_all [OF t1(2)]) (use t1 avail sint32_bounds(2) [of "code c"] in simp_all)
  then obtain t2 where
    dd: "iiod_discard_data (sim_ops h) t1 (nat (sint (code c))) = Some (0, t2)"
    and t2: "rx t2 = drop (nat (sint (code c))) (rx t1)" by blast
  have "rx t2 = drop (8 + nat (sint (code c))) ?rx" using t2 t1 by (simp add: add.commute)
  then show ?thesis
    unfolding iiod_responder_reader_thrd_iter_def
    using rd lc resp f w dd by (simp add: Let_def)
qed

section \<open>Properties of the writers queue\<close>

lemma wlist_unique: "wlist hp p xs \<Longrightarrow> wlist hp p ys \<Longrightarrow> xs = ys"
proof (induction xs arbitrary: p ys)
  case Nil
  then show ?case by (cases ys) auto
next
  case (Cons x xs)
  then show ?case by (cases ys) auto
qed

lemma wlist_suffix: "wlist hp p (bs @ cs) \<Longrightarrow> \<exists>q. wlist hp q cs"
  by (induction bs arbitrary: p) auto

lemma wlist_hd_notin_tl: "wlist hp (w_next (hp x)) xs \<Longrightarrow> x \<notin> set xs"
proof
  assume a: "wlist hp (w_next (hp x)) xs" and "x \<in> set xs"
  then obtain bs cs where s: "xs = bs @ x # cs" by (auto simp: in_set_conv_decomp)
  with a wlist_suffix [of hp "w_next (hp x)" bs "x # cs"] have "wlist hp (w_next (hp x)) cs"
    by auto
  from wlist_unique [OF a this] s show False by simp
qed

lemma wlist_distinct: "wlist hp p xs \<Longrightarrow> distinct xs"
  by (induction xs arbitrary: p) (auto dest: wlist_hd_notin_tl)

lemma wlist_upd_notin: "x \<notin> set xs \<Longrightarrow> wlist (hp(x := v)) p xs = wlist hp p xs"
  by (induction xs arbitrary: p) auto

lemma wlist_upd_same_next: "w_next v = w_next (hp x) \<Longrightarrow> wlist (hp(x := v)) p xs = wlist hp p xs"
  by (induction xs arbitrary: p) auto

lemma last_writer_last: "wlist hp (Some x) xs \<Longrightarrow> last_writer hp x = Some (last xs)"
proof (induction xs arbitrary: x)
  case Nil
  then show ?case by simp
next
  case (Cons y ys)
  then have y: "y = x" and r: "wlist hp (w_next (hp x)) ys" by simp_all
  show ?case
  proof (cases ys)
    case Nil
    with r y show ?thesis by (subst last_writer.simps) simp
  next
    case (Cons z zs)
    with r have n: "w_next (hp x) = Some z" "wlist hp (Some z) ys" by simp_all
    from Cons.IH [OF n(2)] n(1) y Cons show ?thesis by (subst last_writer.simps) simp
  qed
qed

lemma wlist_snoc:
  "wlist hp p xs \<Longrightarrow> xs \<noteq> [] \<Longrightarrow> x \<notin> set xs \<Longrightarrow> w_next (hp x) = None \<Longrightarrow>
     wlist (hp(last xs := (hp (last xs))\<lparr>w_next := Some x\<rparr>)) p (xs @ [x])"
proof (induction xs arbitrary: p)
  case Nil
  then show ?case by simp
next
  case (Cons y ys)
  show ?case
  proof (cases ys)
    case Nil
    with Cons.prems show ?thesis by auto
  next
    case (Cons z zs)
    from Cons.prems(1) have "distinct (y # ys)" by (rule wlist_distinct)
    then have "y \<noteq> last ys" using Cons by auto
    with Cons.prems Cons Cons.IH [of "w_next (hp y)"] show ?thesis by auto
  qed
qed

lemma agree_refl [simp]: "agree a w w"
  by (simp add: agree_def)

lemma agree_trans: "agree a w0 w \<Longrightarrow> agree a w w1 \<Longrightarrow> agree a w0 w1"
  by (simp add: agree_def)

lemma gather_agree:
  "\<forall>x\<in>set (addrs bufs). x < a \<or> a + 8 \<le> x \<Longrightarrow>
   \<forall>z. z < a \<or> a + 8 \<le> z \<longrightarrow> m1 z = m z \<Longrightarrow> gather m1 bufs = gather m bufs"
  by (auto simp: gather_def)

lemma frame_agree:
  "sendable a (buf io) (nb_buf io) \<Longrightarrow> \<forall>z. z < a \<or> a + 8 \<le> z \<longrightarrow> m1 z = m z \<Longrightarrow>
     frame m1 io = frame m io"
  by (simp add: frame_def sendable_def gather_agree [of _ a])

lemma event_frame_agree:
  "agree a w0 w \<Longrightarrow> sendable_event a e \<Longrightarrow> event_frame w e = event_frame w0 e"
  by (cases e) (simp_all add: agree_def sendable_def gather_agree [of _ a])

lemma pending_agree:
  assumes "\<forall>y\<in>set ys. w_io (heap w1 y) = w_io (heap w y)"
    and "\<forall>z. z < a \<or> a + 8 \<le> z \<longrightarrow> mem w1 z = mem w z"
    and "\<forall>y\<in>set ys. sendable a (buf (w_io (heap w y))) (nb_buf (w_io (heap w y)))"
  shows "pending w1 ys = pending w ys"
proof -
  have "map (\<lambda>x. frame (mem w1) (w_io (heap w1 x))) ys = map (\<lambda>x. frame (mem w) (w_io (heap w x))) ys"
    using assms by (intro map_cong refl) (simp add: frame_agree [of a])
  then show ?thesis unfolding pending_def by (rule arg_cong)
qed

lemma store_cmd_outside: "z < a \<or> a + 8 \<le> z \<Longrightarrow> store_cmd m a c z = m z"
  by (auto simp: store_cmd_def intro!: write_seq_outside)

lemma length_cmd_bytes [simp]: "length (cmd_bytes c) = 8"
  by (simp add: cmd_bytes_def)

lemma store_cmd_header: "map (store_cmd m a c) [a ..< a + 8] = cmd_bytes c"
  by (simp add: store_cmd_def map_write_seq)

lemma enqueue_step:
  assumes wl: "wlist (heap w) (writers (priv w)) xs" and nin: "x \<notin> set xs"
  shows "\<exists>w'. iiod_enqueue_command w x op' dev' code' arr nb cl cld = Some (0, w') \<and>
     wlist (heap w') (writers (priv w')) (xs @ [x]) \<and>
     (\<forall>y. y \<noteq> x \<longrightarrow> w_io (heap w' y) = w_io (heap w y)) \<and>
     w_io (heap w' x) =
       \<lparr>cmd = \<lparr>iiod_command.client_id = client_id (heap w x), op = op', dev = dev', code = code'\<rparr>,
        buf = arr, nb_buf = nb, cleanup_cb = cl, cleanup_cb_d = cld\<rparr> \<and>
     (\<forall>y. client_id (heap w' y) = client_id (heap w y)) \<and>
     transport w' = transport w \<and> mem w' = mem w \<and> thrd_stop (priv w') = thrd_stop (priv w)"
proof -
  define wr1 where "wr1 = (heap w x)\<lparr>w_io := \<lparr>cmd = \<lparr>iiod_command.client_id = client_id (heap w x),
        op = op', dev = dev', code = code'\<rparr>, buf = arr, nb_buf = nb, cleanup_cb = cl,
        cleanup_cb_d = cld\<rparr>, w_next := None, w_done := False\<rparr>"
  define hp1 where "hp1 = (heap w)(x := wr1)"
  have wl1: "wlist hp1 (writers (priv w)) xs"
    unfolding hp1_def using wl nin by (simp add: wlist_upd_notin)
  show ?thesis
  proof (cases "writers (priv w)")
    case None
    with wl have "xs = []" by (cases xs) auto
    with None show ?thesis
      by (simp add: iiod_enqueue_command_def Let_def wr1_def [symmetric] hp1_def [symmetric])
        (simp add: hp1_def wr1_def)
  next
    case (Some h)
    with wl have ne: "xs \<noteq> []" by (cases xs) auto
    from wl1 Some have "wlist hp1 (Some h) xs" by simp
    from last_writer_last [OF this] have lw: "last_writer hp1 h = Some (last xs)" .
    have nx: "w_next (hp1 x) = None" by (simp add: hp1_def wr1_def)
    have lx: "last xs \<noteq> x" using ne nin by (metis last_in_set)
    from wlist_snoc [OF wl1 ne nin nx]
    have wl2: "wlist (hp1(last xs := (hp1 (last xs))\<lparr>w_next := Some x\<rparr>)) (writers (priv w)) (xs @ [x])" .
    have "iiod_enqueue_command w x op' dev' code' arr nb cl cld =
        Some (0, w\<lparr>heap := hp1(last xs := (hp1 (last xs))\<lparr>w_next := Some x\<rparr>)\<rparr>)"
      using Some lw
      by (simp add: iiod_enqueue_command_def Let_def wr1_def [symmetric] hp1_def [symmetric])
    with wl2 lx show ?thesis by (simp add: hp1_def wr1_def)
  qed
qed

lemma writer_step:
  assumes wl: "wlist (heap w) (writers (priv w)) (x # xs)"
    and sd: "sendable a (buf (w_io (heap w x))) (nb_buf (w_io (heap w x)))"
    and gs: "good_script (script (transport w))"
    and ns: "\<not> thrd_stop (priv w)"
  shows "\<exists>r w'. iiod_responder_writer_thrd_iter (sim_ops h) a w = Some (Continue r w') \<and>
     wlist (heap w') (writers (priv w')) xs \<and>
     tx (transport w') = tx (transport w) @ frame (mem w) (w_io (heap w x)) \<and>
     good_script (script (transport w')) \<and>
     mem w' = store_cmd (mem w) a (cmd (w_io (heap w x))) \<and>
     (\<forall>y. y \<noteq> x \<longrightarrow> w_io (heap w' y) = w_io (heap w y)) \<and>
     (\<forall>y. client_id (heap w' y) = client_id (heap w y)) \<and>
     \<not> thrd_stop (priv w')"
proof -
  let ?io = "w_io (heap w x)"
  let ?m1 = "store_cmd (mem w) a (cmd ?io)"
  let ?hb = "\<lparr>ptr = a, size = 8\<rparr>"
  let ?bufs = "?hb # payload (buf ?io) (nb_buf ?io)"
  from wl have hd: "writers (priv w) = Some x" and tl: "wlist (heap w) (w_next (heap w x)) xs"
    by simp_all
  from tl have xn: "x \<notin> set xs" by (rule wlist_hd_notin_tl)
  from sd have nb: "nb_buf ?io < 32" by (simp add: sendable_def)
  then have wr: "wrap64 (int (nb_buf ?io) + 1) = nb_buf ?io + 1"
    by (simp add: wrap64_def nat_add_distrib)
  have lb: "load_bufs (Some ?hb) (buf ?io) (nb_buf ?io + 1) = Some ?bufs"
    using sd by (auto simp: load_bufs_def sendable_def payload_def split: option.splits)
  have len: "length ?bufs = nb_buf ?io + 1"
    using sd by (auto simp: sendable_def payload_def split: option.splits)
  from rw_loop_write_all [OF gs, of ?bufs h 0 0 ?m1] len nb obtain r t' where
    rl: "rw_loop (sim_ops h) False 0 ?bufs (nb_buf ?io + 1) 0 (transport w) ?m1 = Some (r, t', ?m1)"
    and t': "tx t' = tx (transport w) @ gather ?m1 ?bufs" "good_script (script t')"
    by auto
  have g1: "gather ?m1 (payload (buf ?io) (nb_buf ?io)) = gather (mem w) (payload (buf ?io) (nb_buf ?io))"
    using sd by (intro gather_agree [of _ a]) (simp_all add: sendable_def store_cmd_outside)
  have g: "gather ?m1 ?bufs = frame (mem w) ?io"
    using g1 by (simp add: gather_def frame_def store_cmd_header)
  have rw: "iiod_rw_all (sim_ops h) (transport w) ?m1 (Some ?hb) (buf ?io) (nb_buf ?io) 0 False =
      Some (r, t', ?m1)"
    using nb wr lb rl by (simp add: iiod_rw_all_def)
  show ?thesis
    unfolding iiod_responder_writer_thrd_iter_def
    using ns hd rw t' g tl xn
    by (simp add: Let_def wlist_upd_same_next)
qed

lemma pending_append [simp]: "pending w (xs @ ys) = pending w xs @ pending w ys"
  by (simp add: pending_def)

lemma run_fifo:
  "wlist (heap w) (writers (priv w)) xs \<Longrightarrow>
   \<forall>x\<in>set xs. sendable a (buf (w_io (heap w x))) (nb_buf (w_io (heap w x))) \<Longrightarrow>
   good_script (script (transport w)) \<Longrightarrow> \<not> thrd_stop (priv w) \<Longrightarrow>
   single_use xs evs \<Longrightarrow>
   \<forall>e\<in>set evs. sendable_event a e \<Longrightarrow> agree a w0 w \<Longrightarrow>
     \<exists>w' ys. run (sim_ops h) a evs w = Some w' \<and> wlist (heap w') (writers (priv w')) ys \<and>
       tx (transport w') @ pending w' ys =
         tx (transport w) @ pending w xs @ concat (map (event_frame w0) evs)"
proof (induction evs arbitrary: w xs)
  case Nil
  then show ?case by auto
next
  case (Cons e es)
  show ?case
  proof (cases e)
    case (Enq x op' dev' code' arr nb)
    from Cons.prems Enq have nin: "x \<notin> set xs" by auto
    from enqueue_step [OF Cons.prems(1) nin, of op' dev' code' arr nb None 0] obtain w1 where
      en: "iiod_enqueue_command w x op' dev' code' arr nb None 0 = Some (0, w1)"
      and wl1: "wlist (heap w1) (writers (priv w1)) (xs @ [x])"
      and io: "\<forall>y. y \<noteq> x \<longrightarrow> w_io (heap w1 y) = w_io (heap w y)"
      and iox: "w_io (heap w1 x) =
         \<lparr>cmd = \<lparr>iiod_command.client_id = client_id (heap w x), op = op', dev = dev', code = code'\<rparr>,
          buf = arr, nb_buf = nb, cleanup_cb = None, cleanup_cb_d = 0\<rparr>"
      and ci: "\<forall>y. client_id (heap w1 y) = client_id (heap w y)"
      and same: "transport w1 = transport w" "mem w1 = mem w"
        "thrd_stop (priv w1) = thrd_stop (priv w)"
      by blast
    have ag: "agree a w0 w1" using Cons.prems(7) ci same by (simp add: agree_def)
    have sx: "sendable a arr nb" using Cons.prems(6) Enq by simp
    have s1: "\<forall>y\<in>set (xs @ [x]). sendable a (buf (w_io (heap w1 y))) (nb_buf (w_io (heap w1 y)))"
      using Cons.prems(2) io iox sx nin by auto
    have d1: "single_use (xs @ [x]) es"
      using Cons.prems(5) Enq by simp
    have e1: "\<forall>e\<in>set es. sendable_event a e" using Cons.prems(6) by simp
    from Cons.IH [OF wl1 s1 _ _ d1 e1 ag] Cons.prems(3,4) same obtain w' ys where
      r: "run (sim_ops h) a es w1 = Some w'" "wlist (heap w') (writers (priv w')) ys"
        "tx (transport w') @ pending w' ys =
           tx (transport w1) @ pending w1 (xs @ [x]) @ concat (map (event_frame w0) es)"
      by auto
    have p1: "pending w1 xs = pending w xs"
      by (rule pending_agree [of _ _ _ a]) (use io nin same Cons.prems(2) in auto)
    have "event_frame w e = event_frame w0 e"
      by (rule event_frame_agree [OF Cons.prems(7)]) (use Cons.prems(6) in simp)
    then have p2: "pending w1 [x] = event_frame w0 e"
      using Enq iox same by (simp add: pending_def frame_def)
    from r en p1 p2 same Enq show ?thesis by auto
  next
    case WriterPass
    have e1: "\<forall>e\<in>set es. sendable_event a e" using Cons.prems(6) by simp
    show ?thesis
    proof (cases xs)
      case Nil
      with Cons.prems(1) have "writers (priv w) = None" by simp
      then have it: "iiod_responder_writer_thrd_iter (sim_ops h) a w = Some Wait"
        using Cons.prems(4) by (simp add: iiod_responder_writer_thrd_iter_def)
      from Cons.IH [OF Cons.prems(1-4) _ e1 Cons.prems(7)] Cons.prems(5) WriterPass Nil
      obtain w' ys where
        "run (sim_ops h) a es w = Some w'" "wlist (heap w') (writers (priv w')) ys"
        "tx (transport w') @ pending w' ys =
           tx (transport w) @ pending w xs @ concat (map (event_frame w0) es)"
        by auto
      with it WriterPass show ?thesis by auto
    next
      case (Cons x xs')
      from Cons.prems(1) have dx: "distinct xs" by (rule wlist_distinct)
      from writer_step [OF Cons.prems(1) [unfolded Cons] _ Cons.prems(3,4), of a h]
        Cons.prems(2) Cons
      obtain r w1 where
        it: "iiod_responder_writer_thrd_iter (sim_ops h) a w = Some (Continue r w1)"
        and wl1: "wlist (heap w1) (writers (priv w1)) xs'"
        and tx1: "tx (transport w1) = tx (transport w) @ frame (mem w) (w_io (heap w x))"
        and gs1: "good_script (script (transport w1))"
        and m1: "mem w1 = store_cmd (mem w) a (cmd (w_io (heap w x)))"
        and io: "\<forall>y. y \<noteq> x \<longrightarrow> w_io (heap w1 y) = w_io (heap w y)"
        and ci: "\<forall>y. client_id (heap w1 y) = client_id (heap w y)"
        and ns1: "\<not> thrd_stop (priv w1)"
        by auto
      have mo: "\<forall>z. z < a \<or> a + 8 \<le> z \<longrightarrow> mem w1 z = mem w z"
        using m1 by (simp add: store_cmd_outside)
      have ag: "agree a w0 w1" using Cons.prems(7) ci mo by (simp add: agree_def)
      have xn: "x \<notin> set xs'" using dx Cons by simp
      have s1: "\<forall>y\<in>set xs'. sendable a (buf (w_io (heap w1 y))) (nb_buf (w_io (heap w1 y)))"
        using Cons.prems(2) io xn Cons by auto
      have d1: "single_use xs' es"
        using Cons.prems(5) WriterPass Cons by simp
      from Cons.IH [OF wl1 s1 gs1 ns1 d1 e1 ag] obtain w' ys where
        r: "run (sim_ops h) a es w1 = Some w'" "wlist (heap w') (writers (priv w')) ys"
          "tx (transport w') @ pending w' ys =
             tx (transport w1) @ pending w1 xs' @ concat (map (event_frame w0) es)"
        by auto
      have p1: "pending w1 xs' = pending w xs'"
        by (rule pending_agree [of _ _ _ a]) (use io xn mo Cons.prems(2) Cons in auto)
      have "pending w xs = frame (mem w) (w_io (heap w x)) @ pending w xs'"
        using Cons by (simp add: pending_def)
      with r it tx1 p1 WriterPass show ?thesis by auto
    qed
  qed
qed

section \<open>The claims settled by running the code on an input\<close>

lemmas eval_defs = iiod_rw_all_def load_bufs_def rw_loop.simps sim_ops_def sim_read_def
  sim_write_def sim_discard_def sim_take_def total_size_def addrs_def write_seq_def scatter_def
  gather_def wrap64_def EINVAL_def EPIPE_def IIOD_OP_RESPONSE_def load_cmd_def store_cmd_def
  cmd_bytes_def Let_def iiod_discard_data.simps find_reader.simps call_cleanup_def
  iiod_responder_reader_thrd_iter_def iiod_responder_writer_thrd_iter_def deliver_response_def
  iiod_reader_cancel_unlocked_def iiod_enqueue_command_def iiod_reader_send_command_async_def
  iiod_reader_send_command_def iiod_reader_wait_for_command_done_def
  iiod_reader_get_response_async_def iiod_reader_enqueue_response_request_def
  zero_responder_def zero_reader_def zero_client_data_def zero_command_def
  idle_world_def waiting_world_def writer_runs_once_def nop_handler_def

text \<open>\<open>iiod_reader_send_command\<close> has one return value, whatever the other threads do.\<close>

lemma iiod_enqueue_command_returns_0:
  "iiod_enqueue_command w writer op' dev' code' arr nb cleanup cleanup_d = Some (r, w') \<Longrightarrow>
     r = 0 \<and> transport w' = transport w \<and> mem w' = mem w \<and> cb_log w' = cb_log w"
  by (auto simp: iiod_enqueue_command_def Let_def split: option.splits)

lemma enqueue_clears_w_done:
  "iiod_enqueue_command w x op' dev' code' arr nb cl cld = Some (r, w') \<Longrightarrow> \<not> w_done (heap w' x)"
  by (auto simp: iiod_enqueue_command_def Let_def split: option.splits if_splits)

text \<open>
  A frame of 32 or more descriptors enqueued on an empty queue: the enqueueing returns 0,
  and the next pass of the writer thread gets \<open>EINVAL\<close> from \<open>iiod_rw_all\<close>
  without any transport I/O, stores it in the handle and passes it to the callback.
\<close>

lemma enqueue_then_writer_EINVAL:
  assumes "writers (priv w) = None" and "\<not> thrd_stop (priv w)" and "32 \<le> nb" and "nb < 2 ^ 64"
  shows "\<exists>w1 w'. iiod_enqueue_command w x op' dev' code' arr nb cl cld = Some (0, w1) \<and>
     iiod_responder_writer_thrd_iter ops a w1 = Some (Continue EINVAL w') \<and>
     sint (code (cmd (w_io (heap w' x)))) = EINVAL \<and> w_done (heap w' x) \<and>
     transport w' = transport w \<and>
     cb_log w' = cb_log w @ (case cl of None \<Rightarrow> [] | Some f \<Rightarrow> [(f, cld, EINVAL)])"
proof -
  have e: "\<And>d m hb. iiod_rw_all ops d m (Some hb) arr nb 0 False = Some (EINVAL, d, m)"
    using iiod_rw_all_EINVAL [where nb = nb and cmd_buf = "Some hb" for hb] assms by simp
  have s: "sint (word_of_int EINVAL :: 32 word) = EINVAL" by (simp add: EINVAL_def)
  show ?thesis
    using assms s
    by (simp add: iiod_enqueue_command_def iiod_responder_writer_thrd_iter_def Let_def e
        call_cleanup_def split: option.splits)
qed

lemma iiod_reader_send_command_returns_0:
  "iiod_reader_send_command others w reader c arr nb = Some (r, w') \<Longrightarrow> r = 0"
  by (auto simp: iiod_reader_send_command_def iiod_reader_send_command_async_def
      split: option.splits if_splits dest: iiod_enqueue_command_returns_0)

text \<open>
  Claim C1 (the code departs from it). The claim: \<open>iiod_reader_send_command\<close> blocks
  until the writer thread has reported completion, and returns 0 when the transport write
  succeeded and the transport error otherwise. The code at an input where the transport
  fails the write with \<open>-EPIPE\<close>: the call returns once the writer has run, the error
  \<open>-32\<close> is in \<open>w_io.cmd.code\<close> of the handle, nothing was written, and the value
  returned is 0.
\<close>

theorem iiod_reader_send_command_drops_write_error:
  "map_option (\<lambda>(r, w). (r, sint (code (cmd (w_io (heap w 1)))), tx (transport w)))
     (iiod_reader_send_command (writer_runs_once (sim_ops nop_handler) 1000)
        (idle_world [Fail 32] []) 1
        \<lparr>iiod_command.client_id = 0, op = 2, dev = 0, code = 0\<rparr> None 0)
   = Some (0, - 32, [])"
  by (simp add: eval_defs)

text \<open>The byte count that \<open>iiod_discard_data\<close> receives for the code \<open>-32\<close>.\<close>

lemma negative_code_as_size_t: "wrap64 (sint (- 32 :: 32 word)) = 2 ^ 64 - 32"
  by (simp add: wrap64_def)

text \<open>
  Claim C2 (the code departs from it). The claim: for a RESPONSE frame that matches no
  waiter the reader thread discards exactly \<open>max(0, code)\<close> bytes, nothing when
  \<open>code \<le> 0\<close>, and goes on with the next frame. The code at the frame
  \<open>(client_id = 999, RESPONSE, dev = 0, code = -32)\<close> followed by the 8 bytes of another
  frame, with no waiter registered: the loop goes on, but the 8 bytes of the next frame
  have been discarded (the code is passed to \<open>iiod_discard_data\<close> as the \<open>size_t\<close>
  value \<open>2 ^ 64 - 32\<close>).
\<close>

theorem reader_thrd_orphan_negative_code_discards:
  "map_option (\<lambda>i. case i of Continue r w \<Rightarrow> Some (rx (transport w)) | _ \<Rightarrow> None)
     (iiod_responder_reader_thrd_iter (sim_ops nop_handler) 1000
        (idle_world [] ([0xE7, 0x03, 0, 0, 0xE0, 0xFF, 0xFF, 0xFF] @ [7, 0, 1, 0, 0, 0, 0, 0])))
   = Some (Some [])"
  by (simp add: eval_defs)

text \<open>
  Claim C4 (the code departs from it). The claim: \<open>iiod_reader_cancel\<close> removes exactly
  the given handle from both lists and leaves the other handles and their order as they
  are. The code at a state where handles 1 and 2 are queued, in this order, in both lists,
  cancelling handle 1: both list heads are \<open>NULL\<close> afterwards, so handle 2 is in neither
  list any more.
\<close>

theorem iiod_reader_cancel_head_empties_lists:
  "rlist (heap two_queued) (readers (priv two_queued)) [1, 2] \<and>
   wlist (heap two_queued) (writers (priv two_queued)) [1, 2] \<and>
   map_option (\<lambda>w. (readers (priv w), writers (priv w))) (iiod_reader_cancel two_queued 1)
     = Some (None, None)"
  by (simp add: two_queued_def iiod_reader_cancel_def iiod_reader_cancel_unlocked_def
      iiod_writer_cancel_unlocked_def zero_responder_def zero_reader_def)

text \<open>Cancelling the second handle, in contrast, unlinks just that handle.\<close>

lemma iiod_reader_cancel_second:
  "map_option (\<lambda>w. (rlist (heap w) (readers (priv w)) [1], wlist (heap w) (writers (priv w)) [1]))
     (iiod_reader_cancel two_queued 2) = Some (True, True)"
  by (simp add: two_queued_def iiod_reader_cancel_def iiod_reader_cancel_unlocked_def
      iiod_writer_cancel_unlocked_def zero_responder_def zero_reader_def
      reader_unlink.simps writer_unlink.simps)

text \<open>Cancelling a handle that is in neither list changes nothing.\<close>

lemma iiod_reader_cancel_absent:
  "iiod_reader_cancel two_queued 3 = Some two_queued"
  by (simp add: two_queued_def iiod_reader_cancel_def iiod_reader_cancel_unlocked_def
      iiod_writer_cancel_unlocked_def zero_responder_def zero_reader_def
      reader_unlink.simps writer_unlink.simps)

section \<open>The claims settled by proof\<close>




text \<open>
  Claim C10, as stated, fails for an empty buffer list: a command sent with \<open>nb = 0\<close>
  and a registered cleanup callback, on a transport that fails the write with \<open>-32\<close>.
  The call returns 0 and the writer thread stores \<open>-32\<close> in \<open>w_io.cmd.code\<close>, but
  it does not call the callback: no value is passed to it.
\<close>

theorem async_send_empty_list_skips_callback:
  "(case iiod_reader_send_command_async (idle_world [Fail 32] []) 1
           \<lparr>iiod_command.client_id = 0, op = 2, dev = 0, code = 0\<rparr> None 0 (Some 7) 9 of
      None \<Rightarrow> None
    | Some (r, w1) \<Rightarrow>
        (case iiod_responder_writer_thrd_iter (sim_ops nop_handler) 1000 w1 of
           Some (Continue ret w') \<Rightarrow>
             Some (r, ret, sint (code (cmd (w_io (heap w' 1)))), w_done (heap w' 1), cb_log w')
         | _ \<Rightarrow> None))
   = Some (0, - 32, - 32, True, [])"
  by (simp add: eval_defs)

text \<open>
  Claim C10, amended. The two asynchronous send functions return 0 whenever they return,
  for every argument, touching neither the transport nor the memory nor the callbacks, and
  they do return when the writers queue is a proper list. Called for a handle that is not
  queued, they put it at the tail of the queue with \<open>w_io\<close> holding the header (the
  handle's \<open>client_id\<close>, and \<open>op\<close>, \<open>dev\<close> and \<open>code\<close> of the command, or
  \<open>IIOD_OP_RESPONSE\<close>, 0 and the code narrowed to 32 bits for a response), the
  buffer list, its length and the callback as given, and with \<open>w_done\<close> cleared; the
  other handles keep their \<open>w_io\<close>. The pass of the writer thread that takes a handle
  from the head of the queue calls \<open>iiod_rw_all\<close> with the header and the list in the
  handle's \<open>w_io\<close>, stores what it returned, narrowed to 32 bits, in
  \<open>w_io.cmd.code\<close>, sets \<open>w_done\<close> and passes the same value to the cleanup
  callback when one is registered and \<open>nb_buf\<close> is not 0. For 32 or more descriptors
  that value is \<open>EINVAL\<close>: sent on an empty queue, such a frame makes the call return
  0, and the next pass of the writer thread stores \<open>EINVAL\<close> in the handle and passes
  it to the registered callback, without any transport I/O.
\<close>

theorem async_send_never_fails:
  "(iiod_reader_send_command_async w reader c arr nb cleanup cleanup_d = Some (r, w1) \<longrightarrow>
      r = 0 \<and> transport w1 = transport w \<and> mem w1 = mem w \<and> cb_log w1 = cb_log w) \<and>
   (iiod_reader_send_response_async w reader code' arr nb cleanup cleanup_d = Some (r', w2) \<longrightarrow>
      r' = 0 \<and> transport w2 = transport w \<and> mem w2 = mem w \<and> cb_log w2 = cb_log w) \<and>
   (wlist (heap w) (writers (priv w)) xs \<longrightarrow>
      iiod_reader_send_command_async w reader c arr nb cleanup cleanup_d \<noteq> None \<and>
      iiod_reader_send_response_async w reader code' arr nb cleanup cleanup_d \<noteq> None) \<and>
   (wlist (heap w) (writers (priv w)) xs \<and> reader \<notin> set xs \<longrightarrow>
      (\<exists>w1. iiod_reader_send_command_async w reader c arr nb cleanup cleanup_d = Some (0, w1) \<and>
         wlist (heap w1) (writers (priv w1)) (xs @ [reader]) \<and>
         w_io (heap w1 reader) =
           \<lparr>cmd = \<lparr>iiod_command.client_id = client_id (heap w reader), op = op c, dev = dev c,
                   code = code c\<rparr>,
            buf = arr, nb_buf = nb, cleanup_cb = cleanup, cleanup_cb_d = cleanup_d\<rparr> \<and>
         \<not> w_done (heap w1 reader) \<and>
         (\<forall>y. y \<noteq> reader \<longrightarrow> w_io (heap w1 y) = w_io (heap w y))) \<and>
      (\<exists>w2. iiod_reader_send_response_async w reader code' arr nb cleanup cleanup_d = Some (0, w2) \<and>
         wlist (heap w2) (writers (priv w2)) (xs @ [reader]) \<and>
         w_io (heap w2 reader) =
           \<lparr>cmd = \<lparr>iiod_command.client_id = client_id (heap w reader), op = IIOD_OP_RESPONSE,
                   dev = 0, code = word_of_int code'\<rparr>,
            buf = arr, nb_buf = nb, cleanup_cb = cleanup, cleanup_cb_d = cleanup_d\<rparr> \<and>
         \<not> w_done (heap w2 reader) \<and>
         (\<forall>y. y \<noteq> reader \<longrightarrow> w_io (heap w2 y) = w_io (heap w y)))) \<and>
   (writers (priv w) = Some x \<and>
    iiod_responder_writer_thrd_iter ops cmd_addr w = Some (Continue ret w') \<longrightarrow>
      iiod_rw_all ops (transport w) (store_cmd (mem w) cmd_addr (cmd (w_io (heap w x))))
          (Some \<lparr>ptr = cmd_addr, size = 8\<rparr>) (buf (w_io (heap w x))) (nb_buf (w_io (heap w x)))
          0 False = Some (ret, transport w', mem w') \<and>
      code (cmd (w_io (heap w' x))) = word_of_int ret \<and>
      (- (2 ^ 31) \<le> ret \<and> ret < 2 ^ 31 \<longrightarrow> sint (code (cmd (w_io (heap w' x)))) = ret) \<and>
      w_done (heap w' x) \<and>
      cb_log w' = cb_log w @
        (if nb_buf (w_io (heap w x)) \<noteq> 0
         then (case cleanup_cb (w_io (heap w x)) of
                 None \<Rightarrow> []
               | Some f \<Rightarrow> [(f, cleanup_cb_d (w_io (heap w x)), ret)])
         else [])) \<and>
   (32 \<le> nb \<and> nb < 2 ^ 64 \<longrightarrow>
      iiod_rw_all ops d m (Some hb) arr nb 0 False = Some (EINVAL, d, m)) \<and>
   (writers (priv w) = None \<and> \<not> thrd_stop (priv w) \<and> 32 \<le> nb \<and> nb < 2 ^ 64 \<longrightarrow>
      (\<exists>w1 w'. iiod_reader_send_command_async w reader c arr nb cleanup cleanup_d = Some (0, w1) \<and>
         iiod_responder_writer_thrd_iter ops cmd_addr w1 = Some (Continue EINVAL w') \<and>
         sint (code (cmd (w_io (heap w' reader)))) = EINVAL \<and> w_done (heap w' reader) \<and>
         transport w' = transport w \<and>
         cb_log w' = cb_log w @
           (case cleanup of None \<Rightarrow> [] | Some f \<Rightarrow> [(f, cleanup_d, EINVAL)])) \<and>
      (\<exists>w2 w'. iiod_reader_send_response_async w reader code' arr nb cleanup cleanup_d = Some (0, w2) \<and>
         iiod_responder_writer_thrd_iter ops cmd_addr w2 = Some (Continue EINVAL w') \<and>
         sint (code (cmd (w_io (heap w' reader)))) = EINVAL \<and> w_done (heap w' reader) \<and>
         transport w' = transport w \<and>
         cb_log w' = cb_log w @
           (case cleanup of None \<Rightarrow> [] | Some f \<Rightarrow> [(f, cleanup_d, EINVAL)])))"
proof (intro conjI impI)
  assume "iiod_reader_send_command_async w reader c arr nb cleanup cleanup_d = Some (r, w1)"
  then show "r = 0" "transport w1 = transport w" "mem w1 = mem w" "cb_log w1 = cb_log w"
    by (auto simp: iiod_reader_send_command_async_def dest: iiod_enqueue_command_returns_0)
next
  assume "iiod_reader_send_response_async w reader code' arr nb cleanup cleanup_d = Some (r', w2)"
  then show "r' = 0" "transport w2 = transport w" "mem w2 = mem w" "cb_log w2 = cb_log w"
    by (auto simp: iiod_reader_send_response_async_def dest: iiod_enqueue_command_returns_0)
next
  assume a: "wlist (heap w) (writers (priv w)) xs"
  show "iiod_reader_send_command_async w reader c arr nb cleanup cleanup_d \<noteq> None"
    unfolding iiod_reader_send_command_async_def by (rule iiod_enqueue_command_returns [OF a])
  show "iiod_reader_send_response_async w reader code' arr nb cleanup cleanup_d \<noteq> None"
    unfolding iiod_reader_send_response_async_def by (rule iiod_enqueue_command_returns [OF a])
next
  assume a: "wlist (heap w) (writers (priv w)) xs \<and> reader \<notin> set xs"
  then have wl: "wlist (heap w) (writers (priv w)) xs" and nin: "reader \<notin> set xs" by simp_all
  from enqueue_step [OF wl nin, of "op c" "dev c" "code c" arr nb cleanup cleanup_d]
  obtain w1 where e: "iiod_enqueue_command w reader (op c) (dev c) (code c) arr nb cleanup cleanup_d
        = Some (0, w1)"
    and f: "wlist (heap w1) (writers (priv w1)) (xs @ [reader])"
      "w_io (heap w1 reader) =
           \<lparr>cmd = \<lparr>iiod_command.client_id = client_id (heap w reader), op = op c, dev = dev c,
                   code = code c\<rparr>,
            buf = arr, nb_buf = nb, cleanup_cb = cleanup, cleanup_cb_d = cleanup_d\<rparr>"
      "\<forall>y. y \<noteq> reader \<longrightarrow> w_io (heap w1 y) = w_io (heap w y)"
    by blast
  from enqueue_clears_w_done [OF e] have "\<not> w_done (heap w1 reader)" .
  with e f show "\<exists>w1. iiod_reader_send_command_async w reader c arr nb cleanup cleanup_d = Some (0, w1) \<and>
         wlist (heap w1) (writers (priv w1)) (xs @ [reader]) \<and>
         w_io (heap w1 reader) =
           \<lparr>cmd = \<lparr>iiod_command.client_id = client_id (heap w reader), op = op c, dev = dev c,
                   code = code c\<rparr>,
            buf = arr, nb_buf = nb, cleanup_cb = cleanup, cleanup_cb_d = cleanup_d\<rparr> \<and>
         \<not> w_done (heap w1 reader) \<and>
         (\<forall>y. y \<noteq> reader \<longrightarrow> w_io (heap w1 y) = w_io (heap w y))"
    by (intro exI [of _ w1]) (simp add: iiod_reader_send_command_async_def)
  from enqueue_step [OF wl nin, of IIOD_OP_RESPONSE 0 "word_of_int code'" arr nb cleanup cleanup_d]
  obtain w2 where e: "iiod_enqueue_command w reader IIOD_OP_RESPONSE 0 (word_of_int code') arr nb
        cleanup cleanup_d = Some (0, w2)"
    and f: "wlist (heap w2) (writers (priv w2)) (xs @ [reader])"
      "w_io (heap w2 reader) =
           \<lparr>cmd = \<lparr>iiod_command.client_id = client_id (heap w reader), op = IIOD_OP_RESPONSE,
                   dev = 0, code = word_of_int code'\<rparr>,
            buf = arr, nb_buf = nb, cleanup_cb = cleanup, cleanup_cb_d = cleanup_d\<rparr>"
      "\<forall>y. y \<noteq> reader \<longrightarrow> w_io (heap w2 y) = w_io (heap w y)"
    by blast
  from enqueue_clears_w_done [OF e] have "\<not> w_done (heap w2 reader)" .
  with e f show "\<exists>w2. iiod_reader_send_response_async w reader code' arr nb cleanup cleanup_d = Some (0, w2) \<and>
         wlist (heap w2) (writers (priv w2)) (xs @ [reader]) \<and>
         w_io (heap w2 reader) =
           \<lparr>cmd = \<lparr>iiod_command.client_id = client_id (heap w reader), op = IIOD_OP_RESPONSE,
                   dev = 0, code = word_of_int code'\<rparr>,
            buf = arr, nb_buf = nb, cleanup_cb = cleanup, cleanup_cb_d = cleanup_d\<rparr> \<and>
         \<not> w_done (heap w2 reader) \<and>
         (\<forall>y. y \<noteq> reader \<longrightarrow> w_io (heap w2 y) = w_io (heap w y))"
    by (intro exI [of _ w2]) (simp add: iiod_reader_send_response_async_def)
next
  assume a: "writers (priv w) = Some x \<and>
    iiod_responder_writer_thrd_iter ops cmd_addr w = Some (Continue ret w')"
  then have b: "iiod_rw_all ops (transport w) (store_cmd (mem w) cmd_addr (cmd (w_io (heap w x))))
          (Some \<lparr>ptr = cmd_addr, size = 8\<rparr>) (buf (w_io (heap w x))) (nb_buf (w_io (heap w x)))
          0 False = Some (ret, transport w', mem w') \<and>
      code (cmd (w_io (heap w' x))) = word_of_int ret \<and> w_done (heap w' x) \<and>
      cb_log w' = cb_log w @
        (if nb_buf (w_io (heap w x)) \<noteq> 0
         then (case cleanup_cb (w_io (heap w x)) of
                 None \<Rightarrow> []
               | Some f \<Rightarrow> [(f, cleanup_cb_d (w_io (heap w x)), ret)])
         else [])"
    by (auto simp: iiod_responder_writer_thrd_iter_def Let_def call_cleanup_def
        split: if_splits option.splits)
  from b show "iiod_rw_all ops (transport w) (store_cmd (mem w) cmd_addr (cmd (w_io (heap w x))))
          (Some \<lparr>ptr = cmd_addr, size = 8\<rparr>) (buf (w_io (heap w x))) (nb_buf (w_io (heap w x)))
          0 False = Some (ret, transport w', mem w')" by simp
  from b show "code (cmd (w_io (heap w' x))) = word_of_int ret" by simp
  from b show "w_done (heap w' x)" by simp
  from b show "cb_log w' = cb_log w @
        (if nb_buf (w_io (heap w x)) \<noteq> 0
         then (case cleanup_cb (w_io (heap w x)) of
                 None \<Rightarrow> []
               | Some f \<Rightarrow> [(f, cleanup_cb_d (w_io (heap w x)), ret)])
         else [])" by simp
  assume "- (2 ^ 31) \<le> ret \<and> ret < 2 ^ 31"
  with b show "sint (code (cmd (w_io (heap w' x)))) = ret" by (simp add: sint32_of_int)
next
  assume "32 \<le> nb \<and> nb < 2 ^ 64"
  then show "iiod_rw_all ops d m (Some hb) arr nb 0 False = Some (EINVAL, d, m)"
    using iiod_rw_all_EINVAL [where nb = nb and cmd_buf = "Some hb"] by simp
next
  assume a: "writers (priv w) = None \<and> \<not> thrd_stop (priv w) \<and> 32 \<le> nb \<and> nb < 2 ^ 64"
  from a show "\<exists>w1 w'. iiod_reader_send_command_async w reader c arr nb cleanup cleanup_d = Some (0, w1) \<and>
         iiod_responder_writer_thrd_iter ops cmd_addr w1 = Some (Continue EINVAL w') \<and>
         sint (code (cmd (w_io (heap w' reader)))) = EINVAL \<and> w_done (heap w' reader) \<and>
         transport w' = transport w \<and>
         cb_log w' = cb_log w @
           (case cleanup of None \<Rightarrow> [] | Some f \<Rightarrow> [(f, cleanup_d, EINVAL)])"
    unfolding iiod_reader_send_command_async_def by (intro enqueue_then_writer_EINVAL) simp_all
  from a show "\<exists>w2 w'. iiod_reader_send_response_async w reader code' arr nb cleanup cleanup_d = Some (0, w2) \<and>
         iiod_responder_writer_thrd_iter ops cmd_addr w2 = Some (Continue EINVAL w') \<and>
         sint (code (cmd (w_io (heap w' reader)))) = EINVAL \<and> w_done (heap w' reader) \<and>
         transport w' = transport w \<and>
         cb_log w' = cb_log w @
           (case cleanup of None \<Rightarrow> [] | Some f \<Rightarrow> [(f, cleanup_d, EINVAL)])"
    unfolding iiod_reader_send_response_async_def by (intro enqueue_then_writer_EINVAL) simp_all
qed

theorem async_send_never_fails_witness:
  "(case iiod_reader_send_command_async (idle_world [] []) 1
           \<lparr>iiod_command.client_id = 0, op = 2, dev = 0, code = 0\<rparr>
           (Some (replicate 32 \<lparr>ptr = 0, size = 1\<rparr>)) 32 (Some 7) 9 of
      None \<Rightarrow> None
    | Some (r, w1) \<Rightarrow>
        (case iiod_responder_writer_thrd_iter (sim_ops nop_handler) 1000 w1 of
           Some (Continue ret w') \<Rightarrow>
             Some (r, writers (priv w1), w_io (heap w1 1), ret,
                   sint (code (cmd (w_io (heap w' 1)))), w_done (heap w' 1), cb_log w',
                   tx (transport w'))
         | _ \<Rightarrow> None))
   = Some (0, Some 1,
       \<lparr>cmd = \<lparr>iiod_command.client_id = 42, op = 2, dev = 0, code = 0\<rparr>,
        buf = Some (replicate 32 \<lparr>ptr = 0, size = 1\<rparr>), nb_buf = 32,
        cleanup_cb = Some 7, cleanup_cb_d = 9\<rparr>,
       22, 22, True, [(7, 9, 22)], []) \<and>
   (case iiod_reader_send_response_async (idle_world [Chunk 8, Fail 32] []) 1 (- 5)
           (Some [\<lparr>ptr = 0, size = 1\<rparr>]) 1 (Some 7) 9 of
      None \<Rightarrow> None
    | Some (r, w1) \<Rightarrow>
        (case iiod_responder_writer_thrd_iter (sim_ops nop_handler) 1000 w1 of
           Some (Continue ret w') \<Rightarrow>
             Some (r, writers (priv w1), w_io (heap w1 1), ret,
                   sint (code (cmd (w_io (heap w' 1)))), w_done (heap w' 1), cb_log w',
                   tx (transport w'))
         | _ \<Rightarrow> None))
   = Some (0, Some 1,
       \<lparr>cmd = \<lparr>iiod_command.client_id = 42, op = 0, dev = 0, code = - 5\<rparr>,
        buf = Some [\<lparr>ptr = 0, size = 1\<rparr>], nb_buf = 1,
        cleanup_cb = Some 7, cleanup_cb_d = 9\<rparr>,
       - 32, - 32, True, [(7, 9, - 32)], [42, 0, 0, 0, 0xFB, 0xFF, 0xFF, 0xFF])"
  (is "?A \<and> ?B")
proof
  show ?A
    using async_send_never_fails [where w = "idle_world [] []" and reader = 1
      and c = "\<lparr>iiod_command.client_id = 0, op = 2, dev = 0, code = 0\<rparr>"
      and arr = "Some (replicate 32 \<lparr>ptr = 0, size = 1\<rparr>)" and nb = 32 and cleanup = "Some 7"
      and cleanup_d = 9 and xs = "[]" and code' = 0
      and ops = "sim_ops nop_handler" and cmd_addr = 1000]
    by (simp add: eval_defs)
  show ?B
    using async_send_never_fails [where w = "idle_world [Chunk 8, Fail 32] []" and reader = 1
      and code' = "- 5" and c = "\<lparr>iiod_command.client_id = 0, op = 2, dev = 0, code = 0\<rparr>"
      and arr = "Some [\<lparr>ptr = 0, size = 1\<rparr>]" and nb = 1 and cleanup = "Some 7"
      and cleanup_d = 9 and xs = "[]" and ops = "sim_ops nop_handler" and cmd_addr = 1000]
    by (simp add: eval_defs iiod_reader_send_response_async_def)
qed

text \<open>
  Claim C6. When the header of a RESPONSE with a negative code arrives and the lookup in
  the waiters list finds a handle, the pass of the reader thread consumes the 8 header
  bytes and nothing else, changes no memory outside the thread's local header, sets
  \<open>r_done\<close>, and \<open>iiod_reader_wait_for_response\<close> then returns that code.
\<close>

theorem reader_thrd_negative_code:
  assumes gs: "good_script (script (transport w))" and len: "8 \<le> length (rx (transport w))"
    and c: "c = cmd_of_bytes (take 8 (rx (transport w)))"
    and resp: "op c = IIOD_OP_RESPONSE"
    and neg: "sint (code c) < 0"
    and rl: "rlist (heap w) (readers (priv w)) xs"
    and fd: "find (\<lambda>x. client_id (heap w x) = iiod_command.client_id c) xs = Some reader"
  shows "\<exists>ret w'. iiod_responder_reader_thrd_iter (sim_ops h) cmd_addr w = Some (Continue ret w') \<and>
      rx (transport w') = drop 8 (rx (transport w)) \<and>
      mem w' = scatter (mem w) [\<lparr>ptr = cmd_addr, size = 8\<rparr>] (take 8 (rx (transport w))) \<and>
      (\<forall>a. a < cmd_addr \<or> cmd_addr + 8 \<le> a \<longrightarrow> mem w' a = mem w a) \<and>
      r_done (heap w' reader) \<and>
      map_option fst (iiod_reader_wait_for_response w' reader) = Some (sint (code c))"
proof -
  from reader_thrd_iter_found [OF gs len c resp rl fd, of h cmd_addr] obtain t1 where
    it: "iiod_responder_reader_thrd_iter (sim_ops h) cmd_addr w =
        deliver_response (sim_ops h)
          (w\<lparr>transport := t1,
             mem := scatter (mem w) [\<lparr>ptr = cmd_addr, size = 8\<rparr>] (take 8 (rx (transport w)))\<rparr>)
          c 8 reader"
    and t1: "rx t1 = drop 8 (rx (transport w))" by blast
  from iiod_reader_cancel_unlocked_rlist [OF rl, of reader] obtain v t u where
    cu: "iiod_reader_cancel_unlocked (priv w) (heap w) reader =
      Some ((priv w)\<lparr>readers := v\<rparr>, (heap w)(t := (heap w t)\<lparr>r_next := u\<rparr>))" by blast
  have out: "\<forall>a. a < cmd_addr \<or> cmd_addr + 8 \<le> a \<longrightarrow>
      scatter (mem w) [\<lparr>ptr = cmd_addr, size = 8\<rparr>] (take 8 (rx (transport w))) a = mem w a"
    by (auto simp: scatter_def intro!: write_seq_outside)
  show ?thesis
    unfolding it deliver_response_def
    using neg t1 out
    by (simp add: cu Let_def iiod_reader_wait_for_response_def wait_for_response_def)
qed

theorem reader_thrd_negative_code_witness:
  "\<exists>ret w'. iiod_responder_reader_thrd_iter (sim_ops nop_handler) 1000
       (waiting_world (Some [\<lparr>ptr = 0, size = 8\<rparr>]) 1 [] [42, 0, 0, 0, 0xE0, 0xFF, 0xFF, 0xFF])
       = Some (Continue ret w') \<and>
     rx (transport w') = [] \<and> map (mem w') [0 ..< 8] = [0, 0, 0, 0, 0, 0, 0, 0] \<and> r_done (heap w' 1) \<and>
     map_option fst (iiod_reader_wait_for_response w' 1) = Some (- 32)"
  using reader_thrd_negative_code [where h = nop_handler and cmd_addr = 1000 and xs = "[1]"
      and reader = 1
      and w = "waiting_world (Some [\<lparr>ptr = 0, size = 8\<rparr>]) 1 [] [42, 0, 0, 0, 0xE0, 0xFF, 0xFF, 0xFF]"
      and c = "\<lparr>iiod_command.client_id = 42, op = 0, dev = 0, code = - 32\<rparr>"]
  by (simp add: eval_defs cmd_of_bytes_def upt_rec iiod_reader_wait_for_response_def wait_for_response_def)

text \<open>
  Claim C3, as stated, fails for a waiter that registered no buffer list (capacity 0, as
  \<open>iiod_reader_get_response_code\<close> does): for a RESPONSE with code 5 the reader thread
  reads and discards nothing, the 5 payload bytes stay on the wire, and the waiter gets 5.
\<close>

theorem reader_thrd_no_buffer_no_discard:
  "map_option (\<lambda>i. case i of Continue ret w' \<Rightarrow>
        Some (rx (transport w'), map_option fst (iiod_reader_wait_for_response w' 1)) | _ \<Rightarrow> None)
     (iiod_responder_reader_thrd_iter (sim_ops nop_handler) 1000
       (waiting_world None 0 [] ([42, 0, 0, 0, 5, 0, 0, 0] @ [1, 2, 3, 4, 5])))
   = Some (Some ([1, 2, 3, 4, 5], Some 5))"
  by (simp add: eval_defs iiod_reader_wait_for_response_def wait_for_response_def)

text \<open>
  Claim C3, amended. For a waiter found by the lookup that registered a buffer list of 1
  to 32 descriptors, each of positive size, of total capacity \<open>cap\<close>: when a RESPONSE
  with \<open>code > cap\<close> arrives and the transport delivers its payload, the pass of the
  reader thread writes the first \<open>cap\<close> payload bytes through the descriptors (so the
  buffers hold them, when they do not overlap), consumes header and all \<open>code\<close>
  payload bytes, sets \<open>r_done\<close>, and \<open>iiod_reader_wait_for_response\<close> returns
  \<open>code\<close>.
\<close>

theorem reader_thrd_oversize_payload:
  assumes gs: "good_script (script (transport w))"
    and c: "c = cmd_of_bytes (take 8 (rx (transport w)))"
    and resp: "op c = IIOD_OP_RESPONSE"
    and rl: "rlist (heap w) (readers (priv w)) xs"
    and fd: "find (\<lambda>x. client_id (heap w x) = iiod_command.client_id c) xs = Some reader"
    and arr: "buf (r_io (heap w reader)) = Some arr"
    and nb: "nb_buf (r_io (heap w reader)) = nb" "1 \<le> nb" "nb \<le> 32" "nb \<le> length arr"
    and pos: "\<forall>b\<in>set (take nb arr). 0 < size b"
    and cap: "cap = total_size (take nb arr)"
    and big: "int cap < sint (code c)"
    and avail: "8 + nat (sint (code c)) \<le> length (rx (transport w))"
  shows "\<exists>ret w'. iiod_responder_reader_thrd_iter (sim_ops h) cmd_addr w = Some (Continue ret w') \<and>
      ret = int cap \<and>
      mem w' = scatter (scatter (mem w) [\<lparr>ptr = cmd_addr, size = 8\<rparr>] (take 8 (rx (transport w))))
                 (take nb arr) (take cap (drop 8 (rx (transport w)))) \<and>
      rx (transport w') = drop (8 + nat (sint (code c))) (rx (transport w)) \<and>
      (distinct (addrs (take nb arr)) \<longrightarrow>
         gather (mem w') (take nb arr) = take cap (drop 8 (rx (transport w)))) \<and>
      r_done (heap w' reader) \<and>
      map_option fst (iiod_reader_wait_for_response w' reader) = Some (sint (code c))"
proof -
  let ?rx = "rx (transport w)"
  let ?m1 = "scatter (mem w) [\<lparr>ptr = cmd_addr, size = 8\<rparr>] (take 8 ?rx)"
  let ?n = "nat (sint (code c))"
  have len: "8 \<le> length ?rx" using avail by simp
  from reader_thrd_iter_found [OF gs len c resp rl fd, of h cmd_addr] obtain t1 where
    it: "iiod_responder_reader_thrd_iter (sim_ops h) cmd_addr w =
        deliver_response (sim_ops h) (w\<lparr>transport := t1, mem := ?m1\<rparr>) c 8 reader"
    and t1: "rx t1 = drop 8 ?rx" "good_script (script t1)" by blast
  from iiod_reader_cancel_unlocked_rlist [OF rl, of reader] obtain v t u where
    cu0: "iiod_reader_cancel_unlocked (priv w) (heap w) reader =
      Some ((priv w)\<lparr>readers := v\<rparr>, (heap w)(t := (heap w t)\<lparr>r_next := u\<rparr>))" by blast
  define hp1 where "hp1 = (heap w)(t := (heap w t)\<lparr>r_next := u\<rparr>)"
  have cu: "iiod_reader_cancel_unlocked (priv w) (heap w) reader =
      Some ((priv w)\<lparr>readers := v\<rparr>, hp1)" using cu0 by (simp add: hp1_def)
  have rio: "r_io (hp1 reader) = r_io (heap w reader)" by (simp add: hp1_def)
  have cpos: "0 < cap"
  proof -
    from nb obtain b bs where "take nb arr = b # bs" by (cases "take nb arr") auto
    with pos cap show ?thesis by simp
  qed
  have cd: "0 < sint (code c)" using big by simp
  have w1: "wrap64 (sint (code c)) = ?n"
    using cd sint32_bounds(2) [of "code c"] by (intro wrap64_small) simp_all
  have w2: "wrap64 (int cap) = cap"
    using big sint32_bounds(2) [of "code c"] by (simp add: wrap64_def)
  have w3: "wrap64 (sint (code c) - int cap) = ?n - cap"
    using big sint32_bounds(2) [of "code c"] by (simp add: wrap64_def nat_diff_distrib)
  have lb: "load_bufs None (Some arr) nb = Some (take nb arr)"
    using nb by (simp add: load_bufs_def)
  have "\<exists>t'. rw_loop (sim_ops h) True ?n (take nb arr) (length (take nb arr)) 0 t1 ?m1 =
             Some (0 + int (total_size (take nb arr)), t',
                   scatter ?m1 (take nb arr) (take (total_size (take nb arr)) (rx t1))) \<and>
       rx t' = drop (total_size (take nb arr)) (rx t1) \<and> tx t' = tx t1 \<and> good_script (script t')"
  proof (rule rw_loop_read_all [OF t1(2)])
    show "take nb arr \<noteq> []" using nb by (cases arr) auto
    show "length (take nb arr) < 2 ^ 64" using nb by simp
    show "\<forall>b\<in>set (take nb arr). 0 < size b" by (rule pos)
    show "(0::int) \<le> 0" by simp
    show "0 + int (total_size (take nb arr)) \<le> int ?n" using big cap by simp
    show "?n < 2 ^ 64" using sint32_bounds(2) [of "code c"] by simp
    show "total_size (take nb arr) \<le> length (rx t1)" using t1 avail big cap by simp
  qed
  then obtain t2 where
    r0: "rw_loop (sim_ops h) True ?n (take nb arr) (length (take nb arr)) 0 t1 ?m1 =
             Some (0 + int (total_size (take nb arr)), t2,
                   scatter ?m1 (take nb arr) (take (total_size (take nb arr)) (rx t1)))"
    and r1: "rx t2 = drop (total_size (take nb arr)) (rx t1)" and r2: "good_script (script t2)"
    by blast
  have ln: "length (take nb arr) = nb" using nb(4) by simp
  have rl2: "rw_loop (sim_ops h) True ?n (take nb arr) nb 0 t1 ?m1 =
             Some (int cap, t2, scatter ?m1 (take nb arr) (take cap (drop 8 ?rx)))"
    using r0 unfolding ln cap [symmetric] t1(1) by simp
  have t2: "rx t2 = drop cap (drop 8 ?rx)" "good_script (script t2)"
    using r1 r2 unfolding cap [symmetric] t1(1) by simp_all
  have rw: "iiod_rw_all (sim_ops h) t1 ?m1 None (Some arr) nb ?n True =
      Some (int cap, t2, scatter ?m1 (take nb arr) (take cap (drop 8 ?rx)))"
    using nb lb rl2 by (simp add: iiod_rw_all_def)
  have "\<exists>t'. iiod_discard_data (sim_ops h) t2 (?n - cap) = Some (0, t') \<and>
      rx t' = drop (?n - cap) (rx t2) \<and> tx t' = tx t2 \<and> good_script (script t')"
    by (rule discard_all [OF t2(2)]) (use t2 avail big sint32_bounds(2) [of "code c"] in simp_all)
  then obtain t3 where
    dd: "iiod_discard_data (sim_ops h) t2 (?n - cap) = Some (0, t3)"
    and t3: "rx t3 = drop (?n - cap) (rx t2)" by blast
  have fin: "rx t3 = drop (8 + ?n) ?rx"
    using t3 t2 big by (simp add: add.commute)
  have cn: "cap < ?n" using big by linarith
  have "length (take cap (drop 8 ?rx)) = total_size (take nb arr)"
    using avail cn cap by simp
  then have gs: "distinct (addrs (take nb arr)) \<longrightarrow>
      gather (scatter ?m1 (take nb arr) (take cap (drop 8 ?rx))) (take nb arr) =
        take cap (drop 8 ?rx)"
    by (simp add: gather_scatter)
  show ?thesis
    unfolding it deliver_response_def
    using arr nb(1) cd cpos cn fin gs
    by (simp add: cu rio Let_def rw w1 w2 w3 dd iiod_reader_wait_for_response_def
        wait_for_response_def)
qed

theorem reader_thrd_oversize_payload_witness:
  "\<exists>ret w'. iiod_responder_reader_thrd_iter (sim_ops nop_handler) 1000
       (waiting_world (Some [\<lparr>ptr = 0, size = 2\<rparr>]) 1 [Chunk 3]
          ([42, 0, 0, 0, 5, 0, 0, 0] @ [1, 2, 3, 4, 5] @ [9]))
       = Some (Continue ret w') \<and>
     ret = 2 \<and> rx (transport w') = [9] \<and> gather (mem w') [\<lparr>ptr = 0, size = 2\<rparr>] = [1, 2] \<and>
     r_done (heap w' 1) \<and>
     map_option fst (iiod_reader_wait_for_response w' 1) = Some 5"
  using reader_thrd_oversize_payload [where h = nop_handler and cmd_addr = 1000 and xs = "[1]"
      and reader = 1 and arr = "[\<lparr>ptr = 0, size = 2\<rparr>]" and nb = 1 and cap = 2
      and w = "waiting_world (Some [\<lparr>ptr = 0, size = 2\<rparr>]) 1 [Chunk 3]
          ([42, 0, 0, 0, 5, 0, 0, 0] @ [1, 2, 3, 4, 5] @ [9])"
      and c = "\<lparr>iiod_command.client_id = 42, op = 0, dev = 0, code = 5\<rparr>"]
  by (simp add: eval_defs cmd_of_bytes_def upt_rec iiod_reader_wait_for_response_def
      wait_for_response_def good_script_def)

text \<open>
  Claim C5, as stated, fails for a frame that the writer thread cannot send in full.
  Frame 1 (handle 1, two payload bytes) and then frame 2 (handle 2) are enqueued and the
  writer thread makes two passes. When the transport takes 3 bytes of frame 1 and then
  fails, the writer thread goes on with frame 2: the transport holds 3 bytes of frame 1
  followed by the header of frame 2. When frame 1 has 32 payload descriptors,
  \<open>iiod_rw_all\<close> rejects it with \<open>EINVAL\<close>: the transport holds the header of
  frame 2 and nothing of frame 1.
\<close>

theorem writers_queue_failed_frame_skipped:
  "map_option (\<lambda>w. tx (transport w))
     (run (sim_ops nop_handler) 1000
        [Enq 1 2 0 0 (Some [\<lparr>ptr = 0, size = 2\<rparr>]) 1, Enq 2 2 0 0 None 0, WriterPass, WriterPass]
        (two_idle [Chunk 3, Fail 32]))
   = Some ([1, 0, 2] @ [2, 0, 2, 0, 0, 0, 0, 0]) \<and>
   map_option (\<lambda>w. tx (transport w))
     (run (sim_ops nop_handler) 1000
        [Enq 1 2 0 0 (Some (replicate 32 \<lparr>ptr = 0, size = 1\<rparr>)) 32, Enq 2 2 0 0 None 0,
         WriterPass, WriterPass]
        (two_idle []))
   = Some [2, 0, 2, 0, 0, 0, 0, 0]"
  by (simp add: eval_defs two_idle_def last_writer.simps)

text \<open>
  Claim C5, amended. With the writers queue a proper list \<open>xs\<close> of sendable frames
  (fewer than 32 payload descriptors, all present, none overlapping the writer thread's
  local header), a transport on which no write fails or returns 0, and a writer thread
  that was not told to stop: \<open>iiod_enqueue_command\<close> of a handle that is not queued
  makes the queue \<open>xs @ [x]\<close>; a pass of the writer thread takes the head of the queue
  and appends exactly that handle's frame, header then payload, to what was written; and
  after any interleaving of enqueueings of sendable frames and writer passes in which no
  handle is enqueued while it is still queued, what was written followed by the frames
  still queued is what had been written, the frames queued at the start and the enqueued
  frames in the order of their enqueueing. So a frame enqueued earlier is on the transport
  in full before the header of one enqueued later.
\<close>

theorem writers_queue_fifo:
  assumes "wlist (heap w) (writers (priv w)) xs"
    and "\<forall>x\<in>set xs. sendable a (buf (w_io (heap w x))) (nb_buf (w_io (heap w x)))"
    and "good_script (script (transport w))" and "\<not> thrd_stop (priv w)"
    and "single_use xs evs"
    and "\<forall>e\<in>set evs. sendable_event a e"
  shows "(x \<notin> set xs \<longrightarrow>
           (\<exists>w1. iiod_enqueue_command w x op' dev' code' arr nb cl cld = Some (0, w1) \<and>
              wlist (heap w1) (writers (priv w1)) (xs @ [x]))) \<and>
         (\<forall>y ys. xs = y # ys \<longrightarrow>
           (\<exists>r w1. iiod_responder_writer_thrd_iter (sim_ops h) a w = Some (Continue r w1) \<and>
              wlist (heap w1) (writers (priv w1)) ys \<and>
              tx (transport w1) = tx (transport w) @ frame (mem w) (w_io (heap w y)))) \<and>
         (\<exists>w' ys. run (sim_ops h) a evs w = Some w' \<and> wlist (heap w') (writers (priv w')) ys \<and>
            tx (transport w') @ pending w' ys =
              tx (transport w) @ pending w xs @ concat (map (event_frame w) evs))"
proof (intro conjI impI allI)
  assume "x \<notin> set xs"
  from enqueue_step [OF assms(1) this, of op' dev' code' arr nb cl cld]
  show "\<exists>w1. iiod_enqueue_command w x op' dev' code' arr nb cl cld = Some (0, w1) \<and>
              wlist (heap w1) (writers (priv w1)) (xs @ [x])" by blast
next
  fix y ys
  assume e: "xs = y # ys"
  from writer_step [OF assms(1) [unfolded e] _ assms(3,4), of a h] assms(2) e
  show "\<exists>r w1. iiod_responder_writer_thrd_iter (sim_ops h) a w = Some (Continue r w1) \<and>
              wlist (heap w1) (writers (priv w1)) ys \<and>
              tx (transport w1) = tx (transport w) @ frame (mem w) (w_io (heap w y))"
    by auto
next
  show "\<exists>w' ys. run (sim_ops h) a evs w = Some w' \<and> wlist (heap w') (writers (priv w')) ys \<and>
            tx (transport w') @ pending w' ys =
              tx (transport w) @ pending w xs @ concat (map (event_frame w) evs)"
    by (rule run_fifo [OF assms agree_refl])
qed

theorem writers_queue_fifo_witness:
  "map_option (\<lambda>w. (tx (transport w), writers (priv w)))
     (run (sim_ops nop_handler) 1000
        [Enq 1 2 0 0 (Some [\<lparr>ptr = 0, size = 2\<rparr>]) 1, Enq 2 2 0 0 None 0, WriterPass,
         Enq 1 3 0 0 None 0, WriterPass, WriterPass]
        (two_idle [Chunk 3, Chunk 3, Chunk 3, Chunk 3]))
   = Some ([1, 0, 2, 0, 0, 0, 0, 0, 65, 66] @ [2, 0, 2, 0, 0, 0, 0, 0] @ [1, 0, 3, 0, 0, 0, 0, 0],
           None)"
  using writers_queue_fifo [where w = "two_idle [Chunk 3, Chunk 3, Chunk 3, Chunk 3]" and xs = "[]"
      and a = 1000 and h = nop_handler and x = 1
      and evs = "[Enq 1 2 0 0 (Some [\<lparr>ptr = 0, size = 2\<rparr>]) 1, Enq 2 2 0 0 None 0,
                  WriterPass, Enq 1 3 0 0 None 0, WriterPass, WriterPass]"]
  by (simp add: eval_defs two_idle_def last_writer.simps sendable_def payload_def)

end
